theory Spec2Isabelle
  imports Complex_Main "HOL-Library.Word" "HOL-Library.Log_Nat"
begin

unbundle bit_operations_syntax

section \<open>IEEE-754 binary32 values as bit patterns\<close>

text \<open>
  A \<open>float\<close> of the kernel is its 32-bit pattern: bit 31 the sign, bits 30..23 the biased
  exponent, bits 22..0 the fraction.  The arithmetic below is the one the SSE/AVX
  instructions behind the intrinsics perform under the default control word: round to
  nearest, ties to even, gradual underflow, overflow to infinity, QNaN results.
\<close>

type_synonym f32 = "32 word"

definition f32_sign :: "f32 \<Rightarrow> bool" where
  "f32_sign x = (2 ^ 31 \<le> unat x)"

definition f32_exp :: "f32 \<Rightarrow> nat" where
  "f32_exp x = unat x div 2 ^ 23 mod 2 ^ 8"

definition f32_frac :: "f32 \<Rightarrow> nat" where
  "f32_frac x = unat x mod 2 ^ 23"

definition f32_is_nan :: "f32 \<Rightarrow> bool" where
  "f32_is_nan x = (f32_exp x = 255 \<and> f32_frac x \<noteq> 0)"

definition f32_is_inf :: "f32 \<Rightarrow> bool" where
  "f32_is_inf x = (f32_exp x = 255 \<and> f32_frac x = 0)"

definition f32_is_zero :: "f32 \<Rightarrow> bool" where
  "f32_is_zero x = (f32_exp x = 0 \<and> f32_frac x = 0)"

definition f32_finite :: "f32 \<Rightarrow> bool" where
  "f32_finite x = (f32_exp x \<noteq> 255)"

text \<open>A finite pattern denotes \<open>\<plusminus> f32_mant * 2 ^ f32_ex\<close>.\<close>

definition f32_mant :: "f32 \<Rightarrow> nat" where
  "f32_mant x = (if f32_exp x = 0 then f32_frac x else 2 ^ 23 + f32_frac x)"

definition f32_ex :: "f32 \<Rightarrow> int" where
  "f32_ex x = (if f32_exp x = 0 then - 149 else int (f32_exp x) - 150)"

definition f32_pack :: "bool \<Rightarrow> nat \<Rightarrow> f32" where
  "f32_pack s b = of_nat ((if s then 2 ^ 31 else 0) + b)"

definition f32_inf :: "bool \<Rightarrow> f32" where
  "f32_inf s = f32_pack s 0x7F800000"

definition f32_zero :: "bool \<Rightarrow> f32" where
  "f32_zero s = f32_pack s 0"

text \<open>The QNaN an invalid operation produces (the "real indefinite").\<close>

definition f32_default_nan :: f32 where
  "f32_default_nan = 0xFFC00000"

definition f32_quiet :: "f32 \<Rightarrow> f32" where
  "f32_quiet x = x OR 0x00400000"

text \<open>\<open>rne_shift m k\<close> is \<open>m / 2 ^ k\<close> rounded to the nearest integer, ties to even.\<close>

definition rne_shift :: "nat \<Rightarrow> nat \<Rightarrow> nat" where
  "rne_shift m k =
     (let q = m div 2 ^ k; r = m mod 2 ^ k
      in if 2 ^ k < 2 * r \<or> (2 * r = 2 ^ k \<and> odd q) then q + 1 else q)"

text \<open>
  \<open>f32_round s m e\<close> is the binary32 pattern nearest to \<open>\<plusminus> m * 2 ^ e\<close>: \<open>q\<close> is the
  exponent of the unit in the last place of the result (at least that of the
  subnormals), \<open>r\<close> the rounded significand in that unit.
\<close>

definition f32_round :: "bool \<Rightarrow> nat \<Rightarrow> int \<Rightarrow> f32" where
  "f32_round s m e =
     (if m = 0 then f32_zero s
      else
        let q = max (e + int (floorlog 2 m) - 24) (- 149);
            r = (if q \<le> e then m * 2 ^ nat (e - q) else rne_shift m (nat (q - e)));
            b = nat (q + 149) * 2 ^ 23 + r
        in if 0x7F800000 \<le> b then f32_inf s else f32_pack s b)"

text \<open>Addition and subtraction share one body; \<open>neg\<close> flips the sign of the second operand.\<close>

definition f32_addsub :: "bool \<Rightarrow> f32 \<Rightarrow> f32 \<Rightarrow> f32" where
  "f32_addsub neg a b =
     (let sb = (f32_sign b \<noteq> neg) in
      if f32_is_nan a then f32_quiet a
      else if f32_is_nan b then f32_quiet b
      else if f32_is_inf a \<and> f32_is_inf b then
        (if f32_sign a = sb then f32_inf sb else f32_default_nan)
      else if f32_is_inf a then f32_inf (f32_sign a)
      else if f32_is_inf b then f32_inf sb
      else
        let e = min (f32_ex a) (f32_ex b);
            x = (if f32_sign a then - 1 else 1) * int (f32_mant a) * 2 ^ nat (f32_ex a - e);
            y = (if sb then - 1 else 1) * int (f32_mant b) * 2 ^ nat (f32_ex b - e);
            t = x + y
        in if t = 0 then f32_zero (f32_sign a \<and> sb)
           else f32_round (t < 0) (nat \<bar>t\<bar>) e)"

definition f32_add :: "f32 \<Rightarrow> f32 \<Rightarrow> f32" where
  "f32_add a b = f32_addsub False a b"

definition f32_sub :: "f32 \<Rightarrow> f32 \<Rightarrow> f32" where
  "f32_sub a b = f32_addsub True a b"

definition f32_mul :: "f32 \<Rightarrow> f32 \<Rightarrow> f32" where
  "f32_mul a b =
     (let s = (f32_sign a \<noteq> f32_sign b) in
      if f32_is_nan a then f32_quiet a
      else if f32_is_nan b then f32_quiet b
      else if (f32_is_inf a \<and> f32_is_zero b) \<or> (f32_is_zero a \<and> f32_is_inf b)
        then f32_default_nan
      else if f32_is_inf a \<or> f32_is_inf b then f32_inf s
      else f32_round s (f32_mant a * f32_mant b) (f32_ex a + f32_ex b))"

section \<open>binary16 patterns and the widening conversion\<close>

type_synonym f16 = "16 word"

definition f16_sign :: "f16 \<Rightarrow> bool" where
  "f16_sign h = (2 ^ 15 \<le> unat h)"

definition f16_exp :: "f16 \<Rightarrow> nat" where
  "f16_exp h = unat h div 2 ^ 10 mod 2 ^ 5"

definition f16_frac :: "f16 \<Rightarrow> nat" where
  "f16_frac h = unat h mod 2 ^ 10"

text \<open>
  One lane of \<open>VCVTPH2PS\<close>: every finite binary16 value is a binary32 value, so the
  rounding is exact; a NaN keeps its payload and comes out quiet.
\<close>

definition cvtph :: "f16 \<Rightarrow> f32" where
  "cvtph h =
     (if f16_exp h = 31 then
        (if f16_frac h = 0 then f32_inf (f16_sign h)
         else f32_quiet (f32_pack (f16_sign h) (0x7F800000 + f16_frac h * 2 ^ 13)))
      else if f16_exp h = 0 then f32_round (f16_sign h) (f16_frac h) (- 24)
      else f32_round (f16_sign h) (2 ^ 10 + f16_frac h) (int (f16_exp h) - 25))"

section \<open>Vector registers and intrinsics\<close>

datatype m128 = M128 f32 f32 f32 f32

datatype m256 = M256 f32 f32 f32 f32 f32 f32 f32 f32

text \<open>An \<open>__m128i\<close> as loaded from memory: its 16 bytes, lowest address first.\<close>

type_synonym m128i = "8 word list"

datatype error = OutOfBounds

definition mm256_setzero_ps :: m256 where
  "mm256_setzero_ps = M256 0 0 0 0 0 0 0 0"

definition mm256_set1_ps :: "f32 \<Rightarrow> m256" where
  "mm256_set1_ps a = M256 a a a a a a a a"

fun mm256_add_ps :: "m256 \<Rightarrow> m256 \<Rightarrow> m256" where
  "mm256_add_ps (M256 a0 a1 a2 a3 a4 a5 a6 a7) (M256 b0 b1 b2 b3 b4 b5 b6 b7) =
     M256 (f32_add a0 b0) (f32_add a1 b1) (f32_add a2 b2) (f32_add a3 b3)
          (f32_add a4 b4) (f32_add a5 b5) (f32_add a6 b6) (f32_add a7 b7)"

fun mm256_sub_ps :: "m256 \<Rightarrow> m256 \<Rightarrow> m256" where
  "mm256_sub_ps (M256 a0 a1 a2 a3 a4 a5 a6 a7) (M256 b0 b1 b2 b3 b4 b5 b6 b7) =
     M256 (f32_sub a0 b0) (f32_sub a1 b1) (f32_sub a2 b2) (f32_sub a3 b3)
          (f32_sub a4 b4) (f32_sub a5 b5) (f32_sub a6 b6) (f32_sub a7 b7)"

fun mm256_mul_ps :: "m256 \<Rightarrow> m256 \<Rightarrow> m256" where
  "mm256_mul_ps (M256 a0 a1 a2 a3 a4 a5 a6 a7) (M256 b0 b1 b2 b3 b4 b5 b6 b7) =
     M256 (f32_mul a0 b0) (f32_mul a1 b1) (f32_mul a2 b2) (f32_mul a3 b3)
          (f32_mul a4 b4) (f32_mul a5 b5) (f32_mul a6 b6) (f32_mul a7 b7)"

fun mm_add_ps :: "m128 \<Rightarrow> m128 \<Rightarrow> m128" where
  "mm_add_ps (M128 a0 a1 a2 a3) (M128 b0 b1 b2 b3) =
     M128 (f32_add a0 b0) (f32_add a1 b1) (f32_add a2 b2) (f32_add a3 b3)"

fun mm256_castps256_ps128 :: "m256 \<Rightarrow> m128" where
  "mm256_castps256_ps128 (M256 a0 a1 a2 a3 a4 a5 a6 a7) = M128 a0 a1 a2 a3"

text \<open>\<open>_mm256_extractf128_ps (a, 1)\<close>: the upper four lanes.\<close>

fun mm256_extractf128_ps_1 :: "m256 \<Rightarrow> m128" where
  "mm256_extractf128_ps_1 (M256 a0 a1 a2 a3 a4 a5 a6 a7) = M128 a4 a5 a6 a7"

text \<open>
  \<open>_mm_loadu_si128\<close> at byte offset \<open>off\<close> of a buffer reads 16 bytes; a read that
  leaves the buffer is the undefined behaviour the caller must exclude.
\<close>

definition mm_loadu_si128 :: "8 word list \<Rightarrow> nat \<Rightarrow> error + m128i" where
  "mm_loadu_si128 buf off =
     (if off + 16 \<le> length buf then Inr (take 16 (drop off buf)) else Inl OutOfBounds)"

text \<open>The \<open>j\<close>-th 16-bit lane of a 128-bit integer register (little endian).\<close>

definition half_lane :: "m128i \<Rightarrow> nat \<Rightarrow> f16" where
  "half_lane v j = ucast (v ! (2 * j)) OR push_bit 8 (ucast (v ! (2 * j + 1)))"

definition mm256_cvtph_ps :: "m128i \<Rightarrow> m256" where
  "mm256_cvtph_ps v =
     M256 (cvtph (half_lane v 0)) (cvtph (half_lane v 1)) (cvtph (half_lane v 2))
          (cvtph (half_lane v 3)) (cvtph (half_lane v 4)) (cvtph (half_lane v 5))
          (cvtph (half_lane v 6)) (cvtph (half_lane v 7))"

text \<open>\<open>buf[i]\<close> for an \<open>unsigned char\<close> buffer.\<close>

definition read_byte :: "8 word list \<Rightarrow> nat \<Rightarrow> error + 8 word" where
  "read_byte buf k = (if k < length buf then Inr (buf ! k) else Inl OutOfBounds)"

section \<open>The kernel\<close>

text \<open>
  The loops thread the index \<open>i\<close> and the accumulator \<open>sum_squared_diff\<close>.  \<open>iters\<close> is a
  ghost field, the log of the executed iterations: \<open>Group i off\<close> is an iteration of the
  vectorized loop entered with index \<open>i\<close> that loaded 16 bytes at byte offset \<open>off\<close> of
  each buffer; \<open>Single i k0 k1\<close> is an iteration of the remainder loop entered with index
  \<open>i\<close> that read the bytes at offsets \<open>k0\<close> and \<open>k1\<close> of each buffer.
\<close>

datatype iter = Group "64 word" nat | Single "64 word" nat nat

record kstate =
  idx :: "64 word"
  sum_squared_diff :: m256
  iters :: "iter list"

text \<open>Lines 16 to 23: the body of the vectorized loop.\<close>

definition main_body :: "8 word list \<Rightarrow> 8 word list \<Rightarrow> kstate \<Rightarrow> error + kstate" where
  "main_body vec1 vec2 s =
     (case mm_loadu_si128 vec1 (unat (idx s * 2)) of
        Inl e \<Rightarrow> Inl e
      | Inr v1_packed \<Rightarrow>
     (case mm_loadu_si128 vec2 (unat (idx s * 2)) of
        Inl e \<Rightarrow> Inl e
      | Inr v2_packed \<Rightarrow>
          let v1 = mm256_cvtph_ps v1_packed;
              v2 = mm256_cvtph_ps v2_packed;
              diff = mm256_sub_ps v1 v2
          in Inr (s\<lparr>sum_squared_diff :=
                      mm256_add_ps (sum_squared_diff s) (mm256_mul_ps diff diff),
                    iters := iters s @ [Group (idx s) (unat (idx s * 2))]\<rparr>)))"

text \<open>Line 15: \<open>for (; i <= size - 8; i += 8)\<close>, the subtraction in \<open>size_t\<close>.\<close>

partial_function (option) main_loop ::
  "8 word list \<Rightarrow> 8 word list \<Rightarrow> 64 word \<Rightarrow> kstate \<Rightarrow> (error + kstate) option" where
  "main_loop vec1 vec2 sz s =
     (if idx s \<le> sz - 8 then
        (case main_body vec1 vec2 s of
           Inl e \<Rightarrow> Some (Inl e)
         | Inr s' \<Rightarrow> main_loop vec1 vec2 sz (s'\<lparr>idx := idx s' + 8\<rparr>))
      else Some (Inr s))"

text \<open>Line 27: \<open>(vec[i] << 8) | vec[i + 1]\<close>, truncated to \<open>uint16_t\<close>.\<close>

definition pack_bytes :: "8 word list \<Rightarrow> 64 word \<Rightarrow> error + 16 word" where
  "pack_bytes vec i =
     (case read_byte vec (unat i) of
        Inl e \<Rightarrow> Inl e
      | Inr b0 \<Rightarrow>
     (case read_byte vec (unat (i + 1)) of
        Inl e \<Rightarrow> Inl e
      | Inr b1 \<Rightarrow> Inr (push_bit 8 (ucast b0) OR ucast b1)))"

text \<open>
  Lines 30 to 39: the union is written through its 16-bit member and read through its
  \<open>float\<close> member.  On the little-endian target the 16 bits are the low half of the
  pattern read; the upper two bytes were never written and hold an unspecified value
  \<open>hi\<close>.
\<close>

definition union_conv :: "16 word \<Rightarrow> 16 word \<Rightarrow> f32" where
  "union_conv hi v = push_bit 16 (ucast hi) OR ucast v"

text \<open>
  Lines 27 to 43: the body of the remainder loop, with its own \<open>i++\<close>.  \<open>upper i\<close> gives
  the unspecified upper halves of \<open>conv1\<close> and \<open>conv2\<close> in the iteration at index \<open>i\<close>.
\<close>

definition rem_body ::
  "(64 word \<Rightarrow> 16 word \<times> 16 word) \<Rightarrow> 8 word list \<Rightarrow> 8 word list \<Rightarrow> kstate
     \<Rightarrow> error + kstate" where
  "rem_body upper vec1 vec2 s =
     (case pack_bytes vec1 (idx s) of
        Inl e \<Rightarrow> Inl e
      | Inr v1 \<Rightarrow>
     (case pack_bytes vec2 (idx s) of
        Inl e \<Rightarrow> Inl e
      | Inr v2 \<Rightarrow>
          let fv1 = union_conv (fst (upper (idx s))) v1;
              fv2 = union_conv (snd (upper (idx s))) v2;
              diff = f32_sub fv1 fv2
          in Inr (s\<lparr>idx := idx s + 1,
                    sum_squared_diff :=
                      mm256_add_ps (sum_squared_diff s) (mm256_set1_ps (f32_mul diff diff)),
                    iters := iters s @ [Single (idx s) (unat (idx s)) (unat (idx s + 1))]\<rparr>)))"

text \<open>Line 26: \<open>for (; i < size; i++)\<close>.\<close>

partial_function (option) rem_loop ::
  "(64 word \<Rightarrow> 16 word \<times> 16 word) \<Rightarrow> 8 word list \<Rightarrow> 8 word list \<Rightarrow> 64 word \<Rightarrow> kstate
     \<Rightarrow> (error + kstate) option" where
  "rem_loop upper vec1 vec2 sz s =
     (if idx s < sz then
        (case rem_body upper vec1 vec2 s of
           Inl e \<Rightarrow> Some (Inl e)
         | Inr s' \<Rightarrow> rem_loop upper vec1 vec2 sz (s'\<lparr>idx := idx s' + 1\<rparr>))
      else Some (Inr s))"

text \<open>Lines 46 to 52: the horizontal reduction.\<close>

definition hsum :: "m256 \<Rightarrow> f32" where
  "hsum a =
     (case mm_add_ps (mm256_castps256_ps128 a) (mm256_extractf128_ps_1 a) of
        M128 r0 r1 r2 r3 \<Rightarrow> f32_add (f32_add (f32_add r0 r1) r2) r3)"

text \<open>Lines 12 and 14: the zero accumulator and \<open>i = 0\<close>.\<close>

definition init_state :: kstate where
  "init_state = \<lparr>idx = 0, sum_squared_diff = mm256_setzero_ps, iters = []\<rparr>"

text \<open>Both loops, one after the other.\<close>

definition run_loops ::
  "(64 word \<Rightarrow> 16 word \<times> 16 word) \<Rightarrow> 8 word list \<Rightarrow> 8 word list \<Rightarrow> 64 word
     \<Rightarrow> (error + kstate) option" where
  "run_loops upper vec1 vec2 sz =
     (case main_loop vec1 vec2 sz init_state of
        None \<Rightarrow> None
      | Some (Inl e) \<Rightarrow> Some (Inl e)
      | Some (Inr s) \<Rightarrow> rem_loop upper vec1 vec2 sz s)"

text \<open>
  The result is \<open>None\<close> when a loop never ends, \<open>Some (Inl OutOfBounds)\<close> when a read
  leaves a buffer, and \<open>Some (Inr r)\<close> when the kernel returns the pattern \<open>r\<close>.
\<close>

definition distance_compare_avx2_f16 ::
  "(64 word \<Rightarrow> 16 word \<times> 16 word) \<Rightarrow> 8 word list \<Rightarrow> 8 word list \<Rightarrow> 64 word
     \<Rightarrow> (error + f32) option" where
  "distance_compare_avx2_f16 upper vec1 vec2 sz =
     (case run_loops upper vec1 vec2 sz of
        None \<Rightarrow> None
      | Some (Inl e) \<Rightarrow> Some (Inl e)
      | Some (Inr s) \<Rightarrow> Some (Inr (hsum (sum_squared_diff s))))"

declare main_loop.simps [code]
declare rem_loop.simps [code]

text \<open>The element indices an iteration covers.\<close>

fun visited :: "iter \<Rightarrow> nat list" where
  "visited (Group i off) = [unat i ..< unat i + 8]"
| "visited (Single i k0 k1) = [unat i]"

section \<open>The loops as iterated steps\<close>

text \<open>
  What one iteration of each loop does when its reads are in bounds, the loop's own
  increment included, and \<open>k\<close> such iterations in a row.
\<close>

definition main_step :: "8 word list \<Rightarrow> 8 word list \<Rightarrow> kstate \<Rightarrow> kstate" where
  "main_step vec1 vec2 s =
     (let off = unat (idx s * 2);
          diff = mm256_sub_ps (mm256_cvtph_ps (take 16 (drop off vec1)))
                              (mm256_cvtph_ps (take 16 (drop off vec2)))
      in \<lparr>idx = idx s + 8,
          sum_squared_diff = mm256_add_ps (sum_squared_diff s) (mm256_mul_ps diff diff),
          iters = iters s @ [Group (idx s) off]\<rparr>)"

fun main_steps :: "8 word list \<Rightarrow> 8 word list \<Rightarrow> nat \<Rightarrow> kstate \<Rightarrow> kstate" where
  "main_steps vec1 vec2 0 s = s"
| "main_steps vec1 vec2 (Suc k) s = main_steps vec1 vec2 k (main_step vec1 vec2 s)"

definition rem_step ::
  "(64 word \<Rightarrow> 16 word \<times> 16 word) \<Rightarrow> 8 word list \<Rightarrow> 8 word list \<Rightarrow> kstate \<Rightarrow> kstate" where
  "rem_step upper vec1 vec2 s =
     (let i = idx s;
          v1 = push_bit 8 (ucast (vec1 ! unat i)) OR ucast (vec1 ! unat (i + 1));
          v2 = push_bit 8 (ucast (vec2 ! unat i)) OR ucast (vec2 ! unat (i + 1));
          diff = f32_sub (union_conv (fst (upper i)) v1) (union_conv (snd (upper i)) v2)
      in \<lparr>idx = i + 2,
          sum_squared_diff =
            mm256_add_ps (sum_squared_diff s) (mm256_set1_ps (f32_mul diff diff)),
          iters = iters s @ [Single i (unat i) (unat (i + 1))]\<rparr>)"

fun rem_steps ::
  "(64 word \<Rightarrow> 16 word \<times> 16 word) \<Rightarrow> 8 word list \<Rightarrow> 8 word list \<Rightarrow> nat \<Rightarrow> kstate
     \<Rightarrow> kstate" where
  "rem_steps upper vec1 vec2 0 s = s"
| "rem_steps upper vec1 vec2 (Suc k) s =
     rem_steps upper vec1 vec2 k (rem_step upper vec1 vec2 s)"

section \<open>Real values of the patterns\<close>

text \<open>
  The magnitude and the value of a finite binary32 pattern, and the value of a finite
  binary16 pattern (the \<open>decode\<close> of the specification).
\<close>

definition f32_mag :: "f32 \<Rightarrow> real" where
  "f32_mag x = real (f32_mant x) * 2 powi f32_ex x"

definition f32_val :: "f32 \<Rightarrow> real" where
  "f32_val x = (if f32_sign x then - f32_mag x else f32_mag x)"

definition f16_finite :: "f16 \<Rightarrow> bool" where
  "f16_finite h = (f16_exp h \<noteq> 31)"

definition f16_val :: "f16 \<Rightarrow> real" where
  "f16_val h =
     (if f16_sign h then - 1 else 1) *
     (if f16_exp h = 0 then real (f16_frac h) * 2 powi (- 24)
      else real (2 ^ 10 + f16_frac h) * 2 powi (int (f16_exp h) - 25))"

section \<open>The accumulator in closed form\<close>

text \<open>
  The half-precision element \<open>i\<close> of a buffer as the vectorized loop sees it (bytes
  \<open>2 i\<close> and \<open>2 i + 1\<close>, little endian), the squared difference of two binary32
  values as both loops compute it, and the squared difference the vectorized loop
  forms for element \<open>i\<close>.
\<close>

definition elem :: "8 word list \<Rightarrow> nat \<Rightarrow> f16" where
  "elem vec i = ucast (vec ! (2 * i)) OR push_bit 8 (ucast (vec ! (2 * i + 1)))"

definition sqdiff :: "f32 \<Rightarrow> f32 \<Rightarrow> f32" where
  "sqdiff x y = f32_mul (f32_sub x y) (f32_sub x y)"

definition term_sq :: "8 word list \<Rightarrow> 8 word list \<Rightarrow> nat \<Rightarrow> f32" where
  "term_sq vec1 vec2 i = sqdiff (cvtph (elem vec1 i)) (cvtph (elem vec2 i))"

text \<open>Lane \<open>j\<close> after \<open>k\<close> vectorized iterations over the squares \<open>sq\<close>.\<close>

fun lane_acc :: "(nat \<Rightarrow> f32) \<Rightarrow> nat \<Rightarrow> nat \<Rightarrow> f32" where
  "lane_acc sq j 0 = 0"
| "lane_acc sq j (Suc k) = f32_add (lane_acc sq j k) (sq (8 * k + j))"

definition lanes_acc :: "(nat \<Rightarrow> f32) \<Rightarrow> nat \<Rightarrow> m256" where
  "lanes_acc sq k =
     M256 (lane_acc sq 0 k) (lane_acc sq 1 k) (lane_acc sq 2 k) (lane_acc sq 3 k)
          (lane_acc sq 4 k) (lane_acc sq 5 k) (lane_acc sq 6 k) (lane_acc sq 7 k)"

text \<open>
  The 16-bit value the remainder loop packs at index \<open>i\<close>, the squared difference it
  forms there, and the accumulator after \<open>k\<close> of its iterations from index \<open>i\<close>.
\<close>

definition be_pack :: "8 word list \<Rightarrow> 64 word \<Rightarrow> 16 word" where
  "be_pack vec i = push_bit 8 (ucast (vec ! unat i)) OR ucast (vec ! unat (i + 1))"

definition rem_sq ::
  "(64 word \<Rightarrow> 16 word \<times> 16 word) \<Rightarrow> 8 word list \<Rightarrow> 8 word list \<Rightarrow> 64 word \<Rightarrow> f32" where
  "rem_sq upper vec1 vec2 i =
     sqdiff (union_conv (fst (upper i)) (be_pack vec1 i))
            (union_conv (snd (upper i)) (be_pack vec2 i))"

fun rem_acc ::
  "(64 word \<Rightarrow> 16 word \<times> 16 word) \<Rightarrow> 8 word list \<Rightarrow> 8 word list \<Rightarrow> 64 word \<Rightarrow> nat
     \<Rightarrow> m256 \<Rightarrow> m256" where
  "rem_acc upper vec1 vec2 i 0 a = a"
| "rem_acc upper vec1 vec2 i (Suc k) a =
     rem_acc upper vec1 vec2 (i + 2) k
       (mm256_add_ps a (mm256_set1_ps (rem_sq upper vec1 vec2 i)))"

section \<open>Concrete choices of the unspecified union bytes\<close>

text \<open>All upper halves zero; and \<open>conv1\<close> holding \<open>0x3F80\<close> above its 16 bits, \<open>conv2\<close> zero.\<close>

definition upper_zero :: "64 word \<Rightarrow> 16 word \<times> 16 word" where
  "upper_zero i = (0, 0)"

definition upper_one_zero :: "64 word \<Rightarrow> 16 word \<times> 16 word" where
  "upper_one_zero i = (0x3F80, 0)"

section \<open>Exact additions\<close>

text \<open>
  The lanes of a register, an addition that commits no rounding error, and a horizontal
  reduction all of whose seven additions are of that kind.
\<close>

fun lanes :: "m256 \<Rightarrow> f32 list" where
  "lanes (M256 a0 a1 a2 a3 a4 a5 a6 a7) = [a0, a1, a2, a3, a4, a5, a6, a7]"

definition exact_add :: "f32 \<Rightarrow> f32 \<Rightarrow> bool" where
  "exact_add a b =
     (f32_finite a \<and> f32_finite b \<and> f32_finite (f32_add a b)
      \<and> f32_val (f32_add a b) = f32_val a + f32_val b)"

fun hsum_exact :: "m256 \<Rightarrow> bool" where
  "hsum_exact (M256 a0 a1 a2 a3 a4 a5 a6 a7) =
     (exact_add a0 a4 \<and> exact_add a1 a5 \<and> exact_add a2 a6 \<and> exact_add a3 a7
      \<and> exact_add (f32_add a0 a4) (f32_add a1 a5)
      \<and> exact_add (f32_add (f32_add a0 a4) (f32_add a1 a5)) (f32_add a2 a6)
      \<and> exact_add (f32_add (f32_add (f32_add a0 a4) (f32_add a1 a5)) (f32_add a2 a6))
            (f32_add a3 a7))"

section \<open>Reference sums and rounding errors\<close>

text \<open>
  The mathematical sum of squared differences of the decoded elements, over the first
  \<open>n\<close> elements.
\<close>

definition exact_sum :: "8 word list \<Rightarrow> 8 word list \<Rightarrow> nat \<Rightarrow> real" where
  "exact_sum vec1 vec2 n = (\<Sum>i<n. (f16_val (elem vec1 i) - f16_val (elem vec2 i))\<^sup>2)"

text \<open>
  The brute-force sum as the specification words it: the squared differences of the
  elements, decoded from binary16 to binary32, added up one after the other in binary32.
\<close>

definition brute_force :: "8 word list \<Rightarrow> 8 word list \<Rightarrow> nat \<Rightarrow> f32" where
  "brute_force vec1 vec2 n = foldl (\<lambda>s i. f32_add s (term_sq vec1 vec2 i)) 0 [0..<n]"

text \<open>A binary32 running sum of the first \<open>k\<close> members of a sequence.\<close>

fun seq_acc :: "(nat \<Rightarrow> f32) \<Rightarrow> nat \<Rightarrow> f32" where
  "seq_acc g 0 = 0"
| "seq_acc g (Suc k) = f32_add (seq_acc g k) (g k)"

text \<open>
  The unit roundoff of binary32, and \<open>x\<close> approximating \<open>y \<ge> 0\<close> with the relative error
  of at most \<open>N\<close> successive roundings.
\<close>

definition unit_roundoff :: real where
  "unit_roundoff = 2 powi (- 24)"

definition close_to :: "nat \<Rightarrow> real \<Rightarrow> real \<Rightarrow> bool" where
  "close_to N x y = (\<bar>x - y\<bar> \<le> ((1 + unit_roundoff) ^ N - 1) * y)"

section \<open>Index arithmetic in \<open>size_t\<close>\<close>

lemma le_sub8_iff:
  fixes i sz :: "64 word"
  assumes "8 \<le> sz"
  shows "i \<le> sz - 8 \<longleftrightarrow> unat i + 8 \<le> unat sz"
proof -
  have "unat (sz - 8) = unat sz - 8"
    using assms by (simp add: unat_sub)
  moreover have "8 \<le> unat sz"
    using assms by (simp add: word_le_nat_alt)
  ultimately show ?thesis
    by (simp add: word_le_nat_alt) arith
qed

lemma unat_plus8:
  fixes i sz :: "64 word"
  assumes "unat i + 8 \<le> unat sz"
  shows "unat (i + 8) = unat i + 8"
proof -
  have "unat sz < 2 ^ 64" using unsigned_less [of sz] by simp
  then have "unat i + unat (8 :: 64 word) < 2 ^ LENGTH(64)" using assms by simp
  then have "unat (i + 8) = unat i + unat (8 :: 64 word)" by (simp only: unat_add_lem [THEN iffD1])
  then show ?thesis by simp
qed

lemma unat_times2_aligned:
  fixes i :: "64 word"
  assumes "8 dvd unat i" "unat i + 8 \<le> n"
  shows "unat (i * 2) + 16 \<le> 2 * n"
proof -
  have eq: "unat (i * 2) = (unat i * 2) mod 2 ^ 64"
    by (simp add: unat_word_ariths)
  obtain j where j: "unat i = 8 * j" using assms(1) by (auto simp: dvd_def)
  show ?thesis
  proof (cases "unat i * 2 < 2 ^ 64")
    case True
    then show ?thesis using assms eq by simp
  next
    case False
    have "(16 * j) mod 2 ^ 64 = 16 * (j mod 2 ^ 60)"
      using mult_mod_right [of 16 j "2 ^ 60"] by simp
    moreover have "j mod 2 ^ 60 < 2 ^ 60" by simp
    ultimately have "(16 * j) mod 2 ^ 64 + 16 \<le> 2 ^ 64" by simp
    then show ?thesis using False assms eq j by simp
  qed
qed

section \<open>Total correctness of the loops for sizes of at least 8\<close>

lemma main_body_in_bounds:
  assumes "unat (idx s * 2) + 16 \<le> length vec1" "unat (idx s * 2) + 16 \<le> length vec2"
  shows "case main_body vec1 vec2 s of Inl e \<Rightarrow> False
         | Inr s' \<Rightarrow> s'\<lparr>idx := idx s' + 8\<rparr> = main_step vec1 vec2 s"
  using assms by (simp add: main_body_def mm_loadu_si128_def main_step_def Let_def)

lemma main_loop_steps:
  assumes "8 \<le> sz" "8 dvd unat (idx s)" "unat (idx s) \<le> unat sz"
    and "2 * unat sz \<le> length vec1" "2 * unat sz \<le> length vec2"
  shows "main_loop vec1 vec2 sz s =
           Some (Inr (main_steps vec1 vec2 ((unat sz - unat (idx s)) div 8) s))"
  using assms(2,3)
proof (induction "unat sz - unat (idx s)" arbitrary: s rule: less_induct)
  case less
  show ?case
  proof (cases "unat (idx s) + 8 \<le> unat sz")
    case True
    then have cond: "idx s \<le> sz - 8" using assms(1) by (simp add: le_sub8_iff)
    have off: "unat (idx s * 2) + 16 \<le> 2 * unat sz"
      using unat_times2_aligned [OF less.prems(1) True] .
    from main_body_in_bounds [of s vec1 vec2] off assms(4,5)
    obtain s' where s': "main_body vec1 vec2 s = Inr s'"
      "s'\<lparr>idx := idx s' + 8\<rparr> = main_step vec1 vec2 s"
      by (auto split: sum.splits)
    let ?t = "main_step vec1 vec2 s"
    have it: "idx ?t = idx s + 8" by (simp add: main_step_def Let_def)
    have ut: "unat (idx ?t) = unat (idx s) + 8" using it unat_plus8 [OF True] by simp
    have "main_loop vec1 vec2 sz ?t =
            Some (Inr (main_steps vec1 vec2 ((unat sz - unat (idx ?t)) div 8) ?t))"
      using less.hyps [of ?t] ut True less.prems by simp
    moreover have "(unat sz - unat (idx s)) div 8 = Suc ((unat sz - unat (idx ?t)) div 8)"
      using ut True by simp
    ultimately show ?thesis
      using cond s' by (subst main_loop.simps) simp
  next
    case False
    then have "\<not> idx s \<le> sz - 8" using assms(1) by (simp add: le_sub8_iff)
    moreover have "(unat sz - unat (idx s)) div 8 = 0" using False by simp
    ultimately show ?thesis by (subst main_loop.simps) simp
  qed
qed


lemma idx_main_step [simp]: "idx (main_step vec1 vec2 s) = idx s + 8"
  by (simp add: main_step_def Let_def)

lemma iters_main_step [simp]: "iters (main_step vec1 vec2 s) = iters s @ [Group (idx s) (unat (idx s * 2))]"
  by (simp add: main_step_def Let_def)

lemma idx_main_steps: "idx (main_steps vec1 vec2 k s) = idx s + 8 * of_nat k"
  by (induction k arbitrary: s) (simp_all add: algebra_simps)

lemma iters_main_steps:
  "iters (main_steps vec1 vec2 k s) = iters s @ map (\<lambda>j. Group (idx s + 8 * of_nat j) (unat ((idx s + 8 * of_nat j) * 2))) [0..<k]"
proof (induction k arbitrary: s)
  case 0
  show ?case by simp
next
  case (Suc k)
  have "map (\<lambda>j. Group (idx s + 8 * of_nat j) (unat ((idx s + 8 * of_nat j) * 2))) [0..<Suc k] =
          Group (idx s) (unat (idx s * 2)) # map (\<lambda>j. Group (idx s + 8 + 8 * of_nat j) (unat ((idx s + 8 + 8 * of_nat j) * 2))) [0..<k]"
    by (simp only: upt_conv_Cons [OF zero_less_Suc] map_Suc_upt [symmetric])
       (simp add: algebra_simps)
  then show ?case using Suc.IH [of "main_step vec1 vec2 s"] by simp
qed

lemma rem_body_in_bounds:
  assumes "unat (idx s) < length vec1" "unat (idx s + 1) < length vec1"
    and "unat (idx s) < length vec2" "unat (idx s + 1) < length vec2"
  shows "case rem_body upper vec1 vec2 s of Inl e \<Rightarrow> False
         | Inr s' \<Rightarrow> s'\<lparr>idx := idx s' + 1\<rparr> = rem_step upper vec1 vec2 s"
  using assms
  by (simp add: rem_body_def pack_bytes_def read_byte_def rem_step_def Let_def)

lemma rem_loop_steps:
  assumes "unat sz < 2 ^ 63"
    and "2 * unat sz \<le> length vec1" "2 * unat sz \<le> length vec2"
  shows "rem_loop upper vec1 vec2 sz s =
           Some (Inr (rem_steps upper vec1 vec2 ((unat sz + 1 - unat (idx s)) div 2) s))"
proof (induction "unat sz + 1 - unat (idx s)" arbitrary: s rule: less_induct)
  case less
  show ?case
  proof (cases "unat (idx s) < unat sz")
    case True
    then have cond: "idx s < sz" by (simp add: word_less_nat_alt)
    have "unat (idx s) + unat (1 :: 64 word) < 2 ^ LENGTH(64)" using True assms(1) by simp
    then have u1: "unat (idx s + 1) = unat (idx s) + 1"
      by (simp only: unat_add_lem [THEN iffD1]) simp
    have "unat (idx s) + unat (2 :: 64 word) < 2 ^ LENGTH(64)" using True assms(1) by simp
    then have u2: "unat (idx s + 2) = unat (idx s) + 2"
      by (simp only: unat_add_lem [THEN iffD1]) simp
    from rem_body_in_bounds [of s vec1 vec2 upper] u1 True assms(2,3)
    obtain s' where s': "rem_body upper vec1 vec2 s = Inr s'"
      "s'\<lparr>idx := idx s' + 1\<rparr> = rem_step upper vec1 vec2 s"
      by (auto split: sum.splits)
    let ?t = "rem_step upper vec1 vec2 s"
    have ut: "unat (idx ?t) = unat (idx s) + 2" using u2 by (simp add: rem_step_def Let_def)
    have "rem_loop upper vec1 vec2 sz ?t =
            Some (Inr (rem_steps upper vec1 vec2 ((unat sz + 1 - unat (idx ?t)) div 2) ?t))"
      using less.hyps [of ?t] ut True by simp
    moreover have "(unat sz + 1 - unat (idx s)) div 2 = Suc ((unat sz + 1 - unat (idx ?t)) div 2)"
      using ut True by simp
    ultimately show ?thesis
      using cond s' by (subst rem_loop.simps) simp
  next
    case False
    then have "\<not> idx s < sz" by (simp add: word_less_nat_alt)
    moreover have "(unat sz + 1 - unat (idx s)) div 2 = 0" using False by simp
    ultimately show ?thesis by (subst rem_loop.simps) simp
  qed
qed

lemma run_loops_steps:
  assumes "8 \<le> sz" "unat sz < 2 ^ 63"
    and "2 * unat sz \<le> length vec1" "2 * unat sz \<le> length vec2"
  shows "run_loops upper vec1 vec2 sz =
           Some (Inr (rem_steps upper vec1 vec2 ((unat sz mod 8 + 1) div 2)
                        (main_steps vec1 vec2 (unat sz div 8) init_state)))"
proof -
  let ?m = "main_steps vec1 vec2 (unat sz div 8) init_state"
  have m: "main_loop vec1 vec2 sz init_state = Some (Inr ?m)"
    using main_loop_steps [OF assms(1) _ _ assms(3,4), of init_state]
    by (simp add: init_state_def)
  have "idx ?m = 8 * of_nat (unat sz div 8)"
    by (simp add: idx_main_steps init_state_def)
  moreover have "unat (8 * of_nat (unat sz div 8) :: 64 word) = 8 * (unat sz div 8)"
  proof -
    have "unat sz < 2 ^ 64" using assms(2) by simp
    then have "8 * (unat sz div 8) < 2 ^ 64" by simp
    then show ?thesis by (simp add: unat_word_ariths unat_of_nat)
  qed
  ultimately have "unat sz + 1 - unat (idx ?m) = unat sz mod 8 + 1"
    by (simp add: minus_mult_div_eq_mod Suc_diff_le)
  then show ?thesis
    using m rem_loop_steps [OF assms(2,3,4), of upper ?m]
    by (simp add: run_loops_def init_state_def)
qed


section \<open>Sizes below 8\<close>

lemma main_loop_small_aux:
  "main_loop vec1 vec2 sz s = Some y \<Longrightarrow> sz < 8 \<longrightarrow> 8 dvd unat (idx s) \<longrightarrow> (\<exists>e. y = Inl e)"
proof (rule main_loop.raw_induct
    [where P = "\<lambda>vec1 vec2 sz s y. sz < 8 \<longrightarrow> 8 dvd unat (idx s) \<longrightarrow> (\<exists>e. y = Inl e)"],
    goal_cases)
  case (1 main_loop vec1 vec2 sz s y)
  show ?case
  proof (intro impI)
    assume small: "sz < 8" and al0: "8 dvd unat (idx s)"
    have sz: "unat sz < 8" using small by (simp add: word_less_nat_alt)
    have bnd: "unat (sz - 8) = unat sz + 2 ^ 64 - 8"
      using sz by (simp add: unat_sub_if' word_le_nat_alt)
    obtain j where j: "unat (idx s) = 8 * j" using al0 by (auto simp: dvd_def)
    have "unat (idx s) < 2 ^ 64" using unsigned_less [of "idx s"] by simp
    then have "j < 2 ^ 61" using j by simp
    then have "unat (idx s) \<le> 2 ^ 64 - 8" using j by simp
    then have cond: "idx s \<le> sz - 8" using bnd by (simp add: word_le_nat_alt)
    show "\<exists>e. y = Inl e"
    proof (cases "main_body vec1 vec2 s")
      case (Inl e)
      then have "Some (Inl e) = Some y" using "1"(3) cond by simp
      then show ?thesis by blast
    next
      case (Inr s')
      have i': "idx s' = idx s"
        using Inr by (auto simp: main_body_def Let_def split: sum.splits)
      have "unat (idx s + 8) = (8 * j + 8) mod 2 ^ 64"
        using j by (simp add: unat_word_ariths)
      also have "\<dots> = 8 * ((j + 1) mod 2 ^ 61)"
        using mult_mod_right [of 8 "j + 1" "2 ^ 61"] by (simp add: add.commute)
      finally have al: "8 dvd unat (idx (s'\<lparr>idx := idx s' + 8\<rparr>))" using i' by simp
      have "main_loop vec1 vec2 sz (s'\<lparr>idx := idx s' + 8\<rparr>) = Some y"
        using "1"(3) cond Inr by simp
      then show ?thesis using "1"(2) small al by blast
    qed
  qed
qed assumption

lemma main_loop_small:
  assumes "main_loop vec1 vec2 sz s = Some y" "sz < 8" "8 dvd unat (idx s)"
  shows "\<exists>e. y = Inl e"
  using main_loop_small_aux [OF assms(1)] assms(2,3) by blast

section \<open>Correctness of the binary32 operations\<close>

lemma unat_f32_pack:
  assumes "b < 2 ^ 31"
  shows "unat (f32_pack s b) = (if s then 2 ^ 31 else 0) + b"
proof -
  define n :: nat where "n = (if s then 2 ^ 31 else 0) + b"
  have "n < 2 ^ 32" using assms by (simp add: n_def)
  then have "unat (of_nat n :: 32 word) = n"
    by (simp only: unat_of_nat) simp
  then show ?thesis
    by (simp only: f32_pack_def n_def)
qed

lemma f32_sign_pack: "b < 2 ^ 31 \<Longrightarrow> f32_sign (f32_pack s b) = s"
  by (simp add: f32_sign_def unat_f32_pack)

lemma f32_exp_pack: "b < 2 ^ 31 \<Longrightarrow> f32_exp (f32_pack s b) = b div 2 ^ 23"
proof -
  assume b: "b < 2 ^ 31"
  have "b div 2 ^ 23 < 2 ^ 8" using b by (simp add: less_mult_imp_div_less)
  moreover have "(2 ^ 31 + b) div 2 ^ 23 = 2 ^ 8 + b div 2 ^ 23"
    using div_mult_self3 [of "2 ^ 23" "2 ^ 8" b] by simp
  ultimately show ?thesis
    using b by (simp add: f32_exp_def unat_f32_pack)
qed

lemma f32_frac_pack: "b < 2 ^ 31 \<Longrightarrow> f32_frac (f32_pack s b) = b mod 2 ^ 23"
proof -
  assume b: "b < 2 ^ 31"
  have "(2 ^ 31 + b) mod 2 ^ 23 = b mod 2 ^ 23"
    using mod_mult_self3 [of "2 ^ 8" "2 ^ 23" b] by simp
  then show ?thesis
    using b by (simp add: f32_frac_def unat_f32_pack)
qed

lemma rne_shift_cases:
  "rne_shift m k = m div 2 ^ k \<and> 2 * (m mod 2 ^ k) \<le> 2 ^ k
   \<or> rne_shift m k = m div 2 ^ k + 1 \<and> 2 ^ k \<le> 2 * (m mod 2 ^ k)"
  by (auto simp: rne_shift_def Let_def)

lemma rne_shift_error:
  "\<bar>real (rne_shift m k) * 2 ^ k - real m\<bar> \<le> 2 ^ k / 2"
proof -
  define d r where "d = m div 2 ^ k" and "r = m mod 2 ^ k"
  have "m = d * 2 ^ k + r" unfolding d_def r_def by (rule div_mult_mod_eq [symmetric])
  then have m: "real m = real d * 2 ^ k + real r" by simp
  have "r < 2 ^ k" by (simp add: r_def)
  then have "real r < real (2 ^ k)" by (simp only: of_nat_less_iff)
  then have lt: "real r < 2 ^ k" by simp
  from rne_shift_cases [of m k] show ?thesis
  proof (elim disjE conjE)
    assume a: "rne_shift m k = m div 2 ^ k" "2 * (m mod 2 ^ k) \<le> 2 ^ k"
    from a(2) have "real (2 * r) \<le> real (2 ^ k)" unfolding r_def by (simp only: of_nat_le_iff)
    then have "2 * real r \<le> 2 ^ k" by simp
    moreover have "real (rne_shift m k) = real d" using a(1) by (simp add: d_def)
    ultimately show ?thesis using m by simp
  next
    assume a: "rne_shift m k = m div 2 ^ k + 1" "2 ^ k \<le> 2 * (m mod 2 ^ k)"
    from a(2) have "real (2 ^ k) \<le> real (2 * r)" unfolding r_def by (simp only: of_nat_le_iff)
    then have "2 ^ k \<le> 2 * real r" by simp
    moreover have "real (rne_shift m k) = real d + 1" using a(1) by (simp add: d_def)
    ultimately show ?thesis using m lt by (simp add: algebra_simps)
  qed
qed

lemma rne_shift_upper:
  assumes "m < 2 ^ n" "k \<le> n"
  shows "rne_shift m k \<le> 2 ^ (n - k)"
proof -
  have "(2 :: nat) ^ n = 2 ^ (n - k) * 2 ^ k" using assms(2) by (simp flip: power_add)
  then have "m div 2 ^ k < 2 ^ (n - k)"
    using assms(1) by (simp add: less_mult_imp_div_less)
  then show ?thesis using rne_shift_cases [of m k] by auto
qed

lemma rne_shift_lower:
  assumes "2 ^ (n - 1) \<le> m" "k < n"
  shows "2 ^ (n - 1 - k) \<le> rne_shift m k"
proof -
  have "(2 :: nat) ^ (n - 1) = 2 ^ (n - 1 - k) * 2 ^ k" using assms(2) by (simp flip: power_add)
  then have "2 ^ (n - 1 - k) * 2 ^ k \<le> m" using assms(1) by simp
  then have "2 ^ (n - 1 - k) \<le> m div 2 ^ k"
    by (simp add: less_eq_div_iff_mult_less_eq)
  then show ?thesis using rne_shift_cases [of m k] by auto
qed


lemma f32_pack_fields:
  assumes r: "r \<le> 2 ^ 24" and q: "- 149 \<le> q" "q \<le> 103" and n: "2 ^ 23 \<le> r \<or> q = - 149"
  defines "b \<equiv> nat (q + 149) * 2 ^ 23 + r"
  shows "b < 0x7F800000"
    and "f32_finite (f32_pack s b)"
    and "f32_sign (f32_pack s b) = s"
    and "f32_mag (f32_pack s b) = real r * 2 powi q"
proof -
  define E where "E = nat (q + 149)"
  have E: "E \<le> 252" "int E = q + 149" using q by (simp_all add: E_def)
  have b: "b = E * 2 ^ 23 + r" by (simp add: b_def E_def)
  have "E * 2 ^ 23 \<le> 252 * 2 ^ 23" using E(1) by simp
  then show lt: "b < 0x7F800000" using r b by simp
  then have b31: "b < 2 ^ 31" by simp
  have ex: "f32_exp (f32_pack s b) = E + r div 2 ^ 23"
    using b31 by (simp add: f32_exp_pack b)
  have fr: "f32_frac (f32_pack s b) = r mod 2 ^ 23"
    using b31 by (simp add: f32_frac_pack b)
  have rd: "r div 2 ^ 23 \<le> 2" using r by (simp add: div_le_mono [of r "2 ^ 24" "2 ^ 23", simplified])
  show "f32_finite (f32_pack s b)" using ex E(1) rd by (simp add: f32_finite_def)
  show "f32_sign (f32_pack s b) = s" using b31 by (rule f32_sign_pack)
  consider "r < 2 ^ 23" | "2 ^ 23 \<le> r" "r < 2 ^ 24" | "r = 2 ^ 24" using r by linarith
  then show "f32_mag (f32_pack s b) = real r * 2 powi q"
  proof cases
    case 1
    then have "q = - 149" using n by simp
    then have "E = 0" by (simp add: E_def)
    then show ?thesis using 1 ex fr \<open>q = - 149\<close>
      by (simp add: f32_mag_def f32_mant_def f32_ex_def)
  next
    case 2
    have d: "r div 2 ^ 23 = 1"
    proof -
      have "r div 2 ^ 23 < 2" using 2(2) by (simp add: less_mult_imp_div_less)
      moreover have "1 \<le> r div 2 ^ 23" using 2(1) by (simp add: less_eq_div_iff_mult_less_eq)
      ultimately show ?thesis by simp
    qed
    have "r mod 2 ^ 23 = (r - 2 ^ 23) mod 2 ^ 23" using 2(1) by (rule le_mod_geq)
    also have "\<dots> = r - 2 ^ 23" using 2(2) by simp
    finally have "2 ^ 23 + r mod 2 ^ 23 = r" using 2(1) by simp
    then show ?thesis using ex fr d E(2)
      by (simp add: f32_mag_def f32_mant_def f32_ex_def)
  next
    case 3
    have "(2 :: real) ^ 23 * 2 powi (q + 1) = 2 ^ 24 * 2 powi q"
      by (simp add: power_int_add)
    then show ?thesis using 3 ex fr E(2)
      by (simp add: f32_mag_def f32_mant_def f32_ex_def add.commute)
  qed
qed


lemma powi_nat_diff:
  assumes "a \<le> (b :: int)"
  shows "(2 :: real) ^ nat (b - a) * 2 powi a = 2 powi b"
proof -
  have "(2 :: real) ^ nat (b - a) = 2 powi (b - a)"
    using assms by (simp flip: power_int_of_nat)
  then show ?thesis by (simp flip: power_int_add)
qed

lemma f32_round_fields:
  assumes m: "0 < m"
    and rng: "- 149 \<le> e \<or> - 125 \<le> e + int (floorlog 2 m)"
    and ovf: "e + int (floorlog 2 m) \<le> 127"
  shows "f32_finite (f32_round s m e)"
    and "f32_sign (f32_round s m e) = s"
    and "\<bar>f32_mag (f32_round s m e) - real m * 2 powi e\<bar> \<le> 2 powi (- 24) * (real m * 2 powi e)"
    and "- 149 \<le> e \<Longrightarrow> floorlog 2 m \<le> 24 \<Longrightarrow> f32_mag (f32_round s m e) = real m * 2 powi e"
proof -
  define n where "n = floorlog 2 m"
  have nb: "2 ^ (n - 1) \<le> m" "m < 2 ^ n"
    using floorlog_bounds [of m 2] m by (simp_all add: n_def)
  have n1: "1 \<le> n" using nb(2) m by (cases n) simp_all
  define q where "q = max (e + int n - 24) (- 149)"
  define r where "r = (if q \<le> e then m * 2 ^ nat (e - q) else rne_shift m (nat (q - e)))"
  define b where "b = nat (q + 149) * 2 ^ 23 + r"
  have q_lo: "- 149 \<le> q" by (simp add: q_def)
  have q_hi: "q \<le> 103" using ovf by (simp add: q_def n_def)
  have key: "r \<le> 2 ^ 24 \<and> (2 ^ 23 \<le> r \<or> q = - 149)
      \<and> \<bar>real r * 2 powi q - real m * 2 powi e\<bar> \<le> 2 powi (- 24) * (real m * 2 powi e)
      \<and> (q \<le> e \<longrightarrow> real r * 2 powi q = real m * 2 powi e)"
  proof (cases "q \<le> e")
    case True
    then have r: "r = m * 2 ^ nat (e - q)" by (simp add: r_def)
    have exact: "real r * 2 powi q = real m * 2 powi e"
      using powi_nat_diff [OF True] by (simp add: r mult.assoc)
    have n24: "n \<le> 24" using True by (simp add: q_def)
    have up: "r \<le> 2 ^ 24"
    proof -
      have "int (nat (e - q)) + int n \<le> 24" using True by (simp add: q_def)
      then have le: "nat (e - q) + n \<le> 24" by linarith
      have "r < 2 ^ n * 2 ^ nat (e - q)" using nb(2) by (simp add: r)
      also have "\<dots> = 2 ^ (nat (e - q) + n)" by (simp add: power_add)
      also have "\<dots> \<le> 2 ^ 24" using le by (rule power_increasing) simp
      finally show ?thesis by simp
    qed
    have lo: "2 ^ 23 \<le> r \<or> q = - 149"
    proof (cases "q = - 149")
      case False
      then have qe: "q = e + int n - 24" by (simp add: q_def max_def split: if_splits)
      then have "nat (e - q) = 24 - n" by simp
      then have rr: "r = m * 2 ^ (24 - n)" by (simp add: r)
      have "(2 :: nat) ^ 23 = 2 ^ (n - 1) * 2 ^ (24 - n)"
        using n1 n24 by (simp flip: power_add)
      also have "\<dots> \<le> m * 2 ^ (24 - n)"
        using nb(1) by (rule mult_le_mono1)
      finally have "2 ^ 23 \<le> r" by (simp only: rr)
      then show ?thesis ..
    qed simp
    have "0 \<le> real m * 2 powi e" by simp
    then show ?thesis using exact up lo by simp
  next
    case False
    then have "q \<noteq> - 149 \<or> e < - 149" by linarith
    then have qe: "q = e + int n - 24" using rng
      by (auto simp: q_def n_def max_def split: if_splits)
    define k where "k = nat (q - e)"
    have k: "0 < k" "n = k + 24" using False qe by (simp_all add: k_def)
    have r: "r = rne_shift m k" using False by (simp add: r_def k_def)
    have up: "r \<le> 2 ^ 24"
      using rne_shift_upper [of m n k] nb(2) k by (simp add: r)
    have lo: "2 ^ 23 \<le> r"
      using rne_shift_lower [of n m k] nb(1) k by (simp add: r)
    have pq: "2 powi q = (2 :: real) ^ k * 2 powi e"
      using powi_nat_diff [of e q] False by (simp add: k_def)
    have "\<bar>real r * 2 ^ k - real m\<bar> \<le> 2 ^ k / 2"
      unfolding r by (rule rne_shift_error)
    moreover have "(2 :: real) ^ k / 2 \<le> 2 powi (- 24) * real m"
    proof -
      have "real (2 ^ (n - 1)) \<le> real m" using nb(1) by (simp only: of_nat_le_iff)
      then have "(2 :: real) ^ (k + 23) \<le> real m" using k by (simp add: add.commute)
      moreover have "(2 :: real) ^ k / 2 = 2 powi (- 24) * 2 ^ (k + 23)"
        by (simp add: power_add power_int_minus)
      ultimately show ?thesis by simp
    qed
    ultimately have "\<bar>real r * 2 ^ k - real m\<bar> \<le> 2 powi (- 24) * real m" by linarith
    then have "\<bar>real r * 2 ^ k - real m\<bar> * 2 powi e \<le> 2 powi (- 24) * real m * 2 powi e"
      by (rule mult_right_mono) simp
    moreover have "\<bar>real r * 2 ^ k - real m\<bar> * 2 powi e = \<bar>real r * 2 powi q - real m * 2 powi e\<bar>"
    proof -
      have "\<bar>real r * 2 ^ k - real m\<bar> * 2 powi e = \<bar>(real r * 2 ^ k - real m) * 2 powi e\<bar>"
        by (simp add: abs_mult)
      then show ?thesis by (simp add: pq algebra_simps)
    qed
    ultimately show ?thesis using up lo False by (simp add: mult.assoc)
  qed
  note pf1 = f32_pack_fields(1) [where r = r and q = q, folded b_def]
  note pf = f32_pack_fields(2-4) [where r = r and q = q and s = s, folded b_def]
  have blt: "b < 0x7F800000" using pf1 key q_lo q_hi by simp
  have "f32_round s m e = (if 0x7F800000 \<le> b then f32_inf s else f32_pack s b)"
    using m unfolding f32_round_def Let_def b_def r_def q_def n_def by simp
  then have rd: "f32_round s m e = f32_pack s b"
    using blt by simp
  show "f32_finite (f32_round s m e)" using pf(1) key q_lo q_hi by (simp add: rd)
  show "f32_sign (f32_round s m e) = s" using pf(2) key q_lo q_hi by (simp add: rd)
  have mag: "f32_mag (f32_round s m e) = real r * 2 powi q"
    using pf(3) key q_lo q_hi by (simp add: rd)
  show "\<bar>f32_mag (f32_round s m e) - real m * 2 powi e\<bar> \<le> 2 powi (- 24) * (real m * 2 powi e)"
    using key by (simp add: mag)
  show "f32_mag (f32_round s m e) = real m * 2 powi e" if "- 149 \<le> e" "floorlog 2 m \<le> 24"
  proof -
    have "q \<le> e" using that by (simp add: q_def n_def)
    then show ?thesis using key by (simp add: mag)
  qed
qed


lemma f32_mag_nonneg [simp]: "0 \<le> f32_mag x"
  by (simp add: f32_mag_def)

lemma f32_mag_not_neg [simp]: "\<not> f32_mag x < 0"
  by (simp add: not_less)

lemma abs_f32_val: "\<bar>f32_val x\<bar> = f32_mag x"
  by (simp add: f32_val_def)

lemma f32_zero_fields:
  "f32_finite (f32_zero s)" "f32_mag (f32_zero s) = 0" "f32_val (f32_zero s) = 0"
  "f32_sign (f32_zero s) = s"
  by (simp_all add: f32_zero_def f32_finite_def f32_mag_def f32_val_def f32_mant_def
      f32_exp_pack f32_frac_pack f32_sign_pack)

lemma f32_finite_not_special:
  "f32_finite x \<Longrightarrow> \<not> f32_is_nan x" "f32_finite x \<Longrightarrow> \<not> f32_is_inf x"
  by (simp_all add: f32_finite_def f32_is_nan_def f32_is_inf_def)

lemma f32_ex_ge: "- 149 \<le> f32_ex x"
  by (simp add: f32_ex_def)

lemma floorlog_powi_le:
  assumes "0 < m" "real m * 2 powi e < 2 powi b"
  shows "e + int (floorlog 2 m) \<le> b"
proof -
  define n where "n = floorlog 2 m"
  have "n \<noteq> 0" using assms(1) by (simp add: n_def floorlog_eq_zero_iff)
  then have n1: "1 \<le> n" by simp
  have "2 ^ (n - 1) \<le> m" using floorlog_bounds [of m 2] assms(1) by (simp add: n_def)
  then have "real (2 ^ (n - 1)) \<le> real m" by (simp only: of_nat_le_iff)
  then have "(2 :: real) powi int (n - 1) \<le> real m" by simp
  moreover have "int (n - 1) = int n - 1" using n1 by simp
  ultimately have "(2 :: real) powi (int n - 1) \<le> real m" by simp
  then have "(2 :: real) powi (int n - 1) * 2 powi e \<le> real m * 2 powi e"
    by (rule mult_right_mono) simp
  also note assms(2)
  finally have "(2 :: real) powi (int n - 1 + e) < 2 powi b"
    by (simp add: power_int_add)
  then have "int n - 1 + e < b"
    using power_int_increasing [of b "int n - 1 + e" "2 :: real"]
    by (cases "int n - 1 + e < b") simp_all
  then show ?thesis by (simp add: n_def)
qed

lemma floorlog_powi_ge:
  assumes "0 < m" "2 powi b \<le> real m * 2 powi e"
  shows "b < e + int (floorlog 2 m)"
proof -
  define n where "n = floorlog 2 m"
  have "m < 2 ^ n" using floorlog_bounds [of m 2] assms(1) by (simp add: n_def)
  then have "real m < real (2 ^ n)" by (simp only: of_nat_less_iff)
  then have "real m < 2 powi int n" by simp
  then have "real m * 2 powi e < 2 powi int n * 2 powi e"
    by (rule mult_strict_right_mono) simp
  with assms(2) have "(2 :: real) powi b < 2 powi int n * 2 powi e"
    by (rule le_less_trans)
  then have "(2 :: real) powi b < 2 powi (int n + e)"
    by (simp add: power_int_add)
  then have "b < int n + e"
    using power_int_increasing [of "int n + e" b "2 :: real"]
    by (cases "b < int n + e") simp_all
  then show ?thesis by (simp add: n_def)
qed


lemma f32_val_round:
  "f32_val (f32_round s m e) = (if s then - f32_mag (f32_round s m e) else f32_mag (f32_round s m e))"
  if "0 < m" "- 149 \<le> e \<or> - 125 \<le> e + int (floorlog 2 m)" "e + int (floorlog 2 m) \<le> 127"
  using f32_round_fields(2) [OF that, of s] by (simp add: f32_val_def)

lemma f32_round_zero: "f32_round s 0 e = f32_zero s"
  by (simp add: f32_round_def)

lemma f32_mant_scaled:
  assumes "e \<le> f32_ex a"
  shows "real_of_int (int (f32_mant a) * 2 ^ nat (f32_ex a - e)) * 2 powi e = f32_mag a"
  using powi_nat_diff [OF assms] by (simp add: f32_mag_def mult.assoc)

lemma f32_addsub_correct:
  assumes fa: "f32_finite a" and fb: "f32_finite b"
    and ovf: "\<bar>f32_val a + (if neg then - f32_val b else f32_val b)\<bar> < 2 powi 127"
  shows "f32_finite (f32_addsub neg a b)"
    and "\<bar>f32_val (f32_addsub neg a b) - (f32_val a + (if neg then - f32_val b else f32_val b))\<bar>
           \<le> 2 powi (- 24) * \<bar>f32_val a + (if neg then - f32_val b else f32_val b)\<bar>"
    and "f32_val a + (if neg then - f32_val b else f32_val b) = 0 \<Longrightarrow>
           f32_addsub neg a b = f32_zero (f32_sign a \<and> (f32_sign b \<noteq> neg))"
proof -
  define X where "X = f32_val a + (if neg then - f32_val b else f32_val b)"
  define sb where "sb = (f32_sign b \<noteq> neg)"
  define e where "e = min (f32_ex a) (f32_ex b)"
  define x where "x = (if f32_sign a then - 1 else 1) * int (f32_mant a) * 2 ^ nat (f32_ex a - e)"
  define y where "y = (if sb then - 1 else 1) * int (f32_mant b) * 2 ^ nat (f32_ex b - e)"
  define t where "t = x + y"
  have res: "f32_addsub neg a b =
      (if t = 0 then f32_zero (f32_sign a \<and> sb) else f32_round (t < 0) (nat \<bar>t\<bar>) e)"
    using f32_finite_not_special [OF fa] f32_finite_not_special [OF fb]
    unfolding f32_addsub_def Let_def t_def x_def y_def e_def sb_def by simp
  have xa: "real_of_int x * 2 powi e = f32_val a"
    using f32_mant_scaled [of e a] by (simp add: x_def e_def f32_val_def)
  have yb: "real_of_int y * 2 powi e = (if neg then - f32_val b else f32_val b)"
    using f32_mant_scaled [of e b] by (simp add: y_def e_def f32_val_def sb_def)
  have tX: "real_of_int t * 2 powi e = X"
    using xa yb by (simp add: t_def X_def algebra_simps)
  have e149: "- 149 \<le> e" using f32_ex_ge [of a] f32_ex_ge [of b] by (simp add: e_def)
  have all: "f32_finite (f32_addsub neg a b)
      \<and> \<bar>f32_val (f32_addsub neg a b) - X\<bar> \<le> 2 powi (- 24) * \<bar>X\<bar>
      \<and> (X = 0 \<longrightarrow> f32_addsub neg a b = f32_zero (f32_sign a \<and> sb))"
  proof (cases "t = 0")
    case True
    then have "X = 0" using tX by simp
    then show ?thesis using True res by (simp add: f32_zero_fields)
  next
    case False
    define m where "m = nat \<bar>t\<bar>"
    have m0: "0 < m" using False by (simp add: m_def)
    have "real m = \<bar>real_of_int t\<bar>" by (simp add: m_def)
    then have mX: "real m * 2 powi e = \<bar>X\<bar>"
      using tX by (simp add: abs_mult flip: tX)
    have X0: "X \<noteq> 0" using False tX by auto
    have "real m * 2 powi e < 2 powi 127" using ovf mX by (simp add: X_def)
    then have hi: "e + int (floorlog 2 m) \<le> 127" using m0 by (rule floorlog_powi_le [rotated])
    have rng: "- 149 \<le> e \<or> - 125 \<le> e + int (floorlog 2 m)" using e149 by simp
    note rf = f32_round_fields [OF m0 rng hi, of "t < 0"]
    have r: "f32_addsub neg a b = f32_round (t < 0) m e" using False res by (simp add: m_def)
    have "\<not> (2 :: real) powi e < 0" by (simp add: not_less)
    then have sg: "(t < 0) = (X < 0)"
      by (simp add: mult_less_0_iff flip: tX)
    have v: "f32_val (f32_round (t < 0) m e) =
        (if X < 0 then - f32_mag (f32_round (t < 0) m e) else f32_mag (f32_round (t < 0) m e))"
      using f32_val_round [OF m0 rng hi, of "t < 0"] sg by simp
    have "\<bar>f32_val (f32_round (t < 0) m e) - X\<bar> = \<bar>f32_mag (f32_round (t < 0) m e) - \<bar>X\<bar>\<bar>"
      using v by (cases "X < 0") simp_all
    then show ?thesis using rf(1,3) X0 by (simp add: r mX)
  qed
  show "f32_finite (f32_addsub neg a b)" using all by simp
  show "\<bar>f32_val (f32_addsub neg a b) - (f32_val a + (if neg then - f32_val b else f32_val b))\<bar>
           \<le> 2 powi (- 24) * \<bar>f32_val a + (if neg then - f32_val b else f32_val b)\<bar>"
    using all by (simp add: X_def)
  show "f32_addsub neg a b = f32_zero (f32_sign a \<and> (f32_sign b \<noteq> neg))"
    if "f32_val a + (if neg then - f32_val b else f32_val b) = 0"
    using all that by (simp add: X_def sb_def)
qed


lemma f32_mul_correct:
  assumes fa: "f32_finite a" and fb: "f32_finite b"
    and rng: "f32_val a * f32_val b = 0 \<or> 2 powi (- 126) \<le> \<bar>f32_val a * f32_val b\<bar>"
    and ovf: "\<bar>f32_val a * f32_val b\<bar> < 2 powi 127"
  shows "f32_finite (f32_mul a b)"
    and "\<bar>f32_val (f32_mul a b) - f32_val a * f32_val b\<bar> \<le> 2 powi (- 24) * \<bar>f32_val a * f32_val b\<bar>"
proof -
  define X where "X = f32_val a * f32_val b"
  define s where "s = (f32_sign a \<noteq> f32_sign b)"
  define m where "m = f32_mant a * f32_mant b"
  define e where "e = f32_ex a + f32_ex b"
  have res: "f32_mul a b = f32_round s m e"
    using f32_finite_not_special [OF fa] f32_finite_not_special [OF fb]
    unfolding f32_mul_def Let_def s_def m_def e_def by simp
  have mX: "real m * 2 powi e = \<bar>X\<bar>"
    by (simp add: X_def abs_mult abs_f32_val m_def e_def f32_mag_def power_int_add)
  have sg: "X < 0 \<Longrightarrow> s" "0 < X \<Longrightarrow> \<not> s"
    by (auto simp: X_def s_def f32_val_def mult_less_0_iff zero_less_mult_iff
        not_less split: if_splits)
  have all: "f32_finite (f32_mul a b) \<and> \<bar>f32_val (f32_mul a b) - X\<bar> \<le> 2 powi (- 24) * \<bar>X\<bar>"
  proof (cases "m = 0")
    case True
    then have "X = 0" using mX by simp
    then show ?thesis using True res by (simp add: f32_round_zero f32_zero_fields)
  next
    case False
    then have m0: "0 < m" by simp
    have X0: "X \<noteq> 0" using mX m0 by auto
    then have "2 powi (- 126) \<le> real m * 2 powi e" using rng mX by (simp add: X_def)
    then have "- 126 < e + int (floorlog 2 m)" using m0 by (rule floorlog_powi_ge [rotated])
    then have rg: "- 149 \<le> e \<or> - 125 \<le> e + int (floorlog 2 m)" by simp
    have "real m * 2 powi e < 2 powi 127" using ovf mX by (simp add: X_def)
    then have hi: "e + int (floorlog 2 m) \<le> 127" using m0 by (rule floorlog_powi_le [rotated])
    note rf = f32_round_fields [OF m0 rg hi, of s]
    have v: "f32_val (f32_round s m e) =
        (if X < 0 then - f32_mag (f32_round s m e) else f32_mag (f32_round s m e))"
      using f32_val_round [OF m0 rg hi, of s] sg X0 by (cases "X < 0") auto
    have "\<bar>f32_val (f32_round s m e) - X\<bar> = \<bar>f32_mag (f32_round s m e) - \<bar>X\<bar>\<bar>"
      using v by (cases "X < 0") simp_all
    then show ?thesis using rf(1,3) by (simp add: res mX)
  qed
  show "f32_finite (f32_mul a b)" using all by simp
  show "\<bar>f32_val (f32_mul a b) - f32_val a * f32_val b\<bar> \<le> 2 powi (- 24) * \<bar>f32_val a * f32_val b\<bar>"
    using all by (simp add: X_def)
qed

lemma floorlog_le_11: "m < 2 ^ 11 \<Longrightarrow> floorlog 2 m \<le> 11"
  by (simp add: floorlog_le_iff)

lemma cvtph_correct:
  assumes "f16_finite h"
  shows "f32_finite (cvtph h)" and "f32_val (cvtph h) = f16_val h"
proof -
  define s where "s = f16_sign h"
  define m where "m = (if f16_exp h = 0 then f16_frac h else 2 ^ 10 + f16_frac h)"
  define e where "e = (if f16_exp h = 0 then - 24 else int (f16_exp h) - 25)"
  have res: "cvtph h = f32_round s m e"
    using assms by (simp add: cvtph_def f16_finite_def s_def m_def e_def)
  have val: "f16_val h = (if s then - 1 else 1) * (real m * 2 powi e)"
    by (simp add: f16_val_def s_def m_def e_def)
  have fr: "f16_frac h < 2 ^ 10" by (simp add: f16_frac_def)
  have ex: "f16_exp h < 2 ^ 5" by (simp add: f16_exp_def)
  have m11: "m < 2 ^ 11" using fr by (simp add: m_def)
  have e_lo: "- 149 \<le> e" by (simp add: e_def)
  have e_hi: "e \<le> 6" using ex by (simp add: e_def)
  have all: "f32_finite (cvtph h) \<and> f32_val (cvtph h) = f16_val h"
  proof (cases "m = 0")
    case True
    then show ?thesis using res val by (simp add: f32_round_zero f32_zero_fields)
  next
    case False
    then have m0: "0 < m" by simp
    have fl: "floorlog 2 m \<le> 11" using m11 by (rule floorlog_le_11)
    have rg: "- 149 \<le> e \<or> - 125 \<le> e + int (floorlog 2 m)" using e_lo by simp
    have hi: "e + int (floorlog 2 m) \<le> 127" using e_hi fl by simp
    note rf = f32_round_fields [OF m0 rg hi, of s]
    have "f32_mag (f32_round s m e) = real m * 2 powi e"
      using rf(4) e_lo fl by simp
    then show ?thesis
      using rf(1) f32_val_round [OF m0 rg hi, of s] by (cases s) (simp_all add: res val)
  qed
  show "f32_finite (cvtph h)" using all by simp
  show "f32_val (cvtph h) = f16_val h" using all by simp
qed

section \<open>Squared differences\<close>

lemma f32_inf_fields: "f32_exp (f32_inf s) = 255" "f32_frac (f32_inf s) = 0"
  by (simp_all add: f32_inf_def f32_exp_pack f32_frac_pack)

lemma f32_zero_exp_frac: "f32_exp (f32_zero s) = 0" "f32_frac (f32_zero s) = 0"
  by (simp_all add: f32_zero_def f32_exp_pack f32_frac_pack)

lemma f32_round_shape: "\<exists>b. b \<le> 0x7F800000 \<and> (\<forall>s. f32_round s m e = f32_pack s b)"
proof (cases "m = 0")
  case True
  then have "\<forall>s. f32_round s m e = f32_pack s 0" by (simp add: f32_round_def f32_zero_def)
  then show ?thesis by (intro exI [of _ 0]) simp
next
  case False
  define q where "q = max (e + int (floorlog 2 m) - 24) (- 149)"
  define r where "r = (if q \<le> e then m * 2 ^ nat (e - q) else rne_shift m (nat (q - e)))"
  define b where "b = nat (q + 149) * 2 ^ 23 + r"
  have rd: "f32_round s m e = (if 0x7F800000 \<le> b then f32_pack s 0x7F800000 else f32_pack s b)" for s
    using False unfolding f32_round_def Let_def b_def r_def q_def f32_inf_def by simp
  show ?thesis
  proof (cases "0x7F800000 \<le> b")
    case True
    then have "\<forall>s. f32_round s m e = f32_pack s 0x7F800000" using rd by simp
    then show ?thesis by (intro exI [of _ "0x7F800000"]) simp
  next
    case False
    then have "\<forall>s. f32_round s m e = f32_pack s b" using rd by simp
    then show ?thesis using False by (intro exI [of _ b]) simp
  qed
qed

lemma f32_round_mirror:
  "f32_exp (f32_round s m e) = f32_exp (f32_round s' m e)"
  "f32_frac (f32_round s m e) = f32_frac (f32_round s' m e)"
proof -
  obtain b where b: "b \<le> 0x7F800000" "\<forall>s. f32_round s m e = f32_pack s b"
    using f32_round_shape [of m e] by blast
  have "b < 2 ^ 31" using b(1) by simp
  then show "f32_exp (f32_round s m e) = f32_exp (f32_round s' m e)"
    "f32_frac (f32_round s m e) = f32_frac (f32_round s' m e)"
    using b(2) by (simp_all add: f32_exp_pack f32_frac_pack)
qed

lemma f32_round_not_nan: "\<not> f32_is_nan (f32_round s m e)"
proof -
  obtain b where b: "b \<le> 0x7F800000" "\<forall>s. f32_round s m e = f32_pack s b"
    using f32_round_shape [of m e] by blast
  have b31: "b < 2 ^ 31" using b(1) by simp
  have "b mod 2 ^ 23 = 0" if "b div 2 ^ 23 = 255"
  proof -
    have "b = b div 2 ^ 23 * 2 ^ 23 + b mod 2 ^ 23" by (rule div_mult_mod_eq [symmetric])
    then have "b = 255 * 2 ^ 23 + b mod 2 ^ 23" by (simp only: that)
    then show ?thesis using b(1) by simp
  qed
  then show ?thesis
    using b(2) b31 by (auto simp: f32_is_nan_def f32_exp_pack f32_frac_pack)
qed

lemma f32_mul_self_cong:
  assumes "f32_exp a = f32_exp b" "f32_frac a = f32_frac b" "\<not> f32_is_nan a"
  shows "f32_mul a a = f32_mul b b"
  using assms
  by (simp add: f32_mul_def f32_is_nan_def f32_is_inf_def f32_is_zero_def f32_mant_def
      f32_ex_def)

lemma f32_sub_mirror:
  assumes "\<not> f32_is_nan x" "\<not> f32_is_nan y"
  shows "f32_sub x y = f32_sub y x \<or>
         (f32_exp (f32_sub x y) = f32_exp (f32_sub y x)
          \<and> f32_frac (f32_sub x y) = f32_frac (f32_sub y x) \<and> \<not> f32_is_nan (f32_sub x y))"
proof -
  define e where "e = min (f32_ex x) (f32_ex y)"
  define X where "X = (if f32_sign x then - 1 else 1) * int (f32_mant x) * 2 ^ nat (f32_ex x - e)"
  define Y where "Y = (if f32_sign y then - 1 else 1) * int (f32_mant y) * 2 ^ nat (f32_ex y - e)"
  have e': "min (f32_ex y) (f32_ex x) = e" by (simp add: e_def min.commute)
  have nY: "(if \<not> f32_sign y then - 1 else 1) * int (f32_mant y) * 2 ^ nat (f32_ex y - e) = - Y"
    by (simp add: Y_def)
  have nX: "(if \<not> f32_sign x then - 1 else 1) * int (f32_mant x) * 2 ^ nat (f32_ex x - e) = - X"
    by (simp add: X_def)
  have d1: "f32_sub x y =
      (if f32_is_inf x \<and> f32_is_inf y then
         (if f32_sign x = (\<not> f32_sign y) then f32_inf (\<not> f32_sign y) else f32_default_nan)
       else if f32_is_inf x then f32_inf (f32_sign x)
       else if f32_is_inf y then f32_inf (\<not> f32_sign y)
       else if X - Y = 0 then f32_zero (f32_sign x \<and> \<not> f32_sign y)
       else f32_round (X - Y < 0) (nat \<bar>X - Y\<bar>) e)"
    using assms unfolding f32_sub_def f32_addsub_def Let_def e_def [symmetric]
    by (simp add: X_def [symmetric] nY)
  have d2: "f32_sub y x =
      (if f32_is_inf y \<and> f32_is_inf x then
         (if f32_sign y = (\<not> f32_sign x) then f32_inf (\<not> f32_sign x) else f32_default_nan)
       else if f32_is_inf y then f32_inf (f32_sign y)
       else if f32_is_inf x then f32_inf (\<not> f32_sign x)
       else if Y - X = 0 then f32_zero (f32_sign y \<and> \<not> f32_sign x)
       else f32_round (Y - X < 0) (nat \<bar>Y - X\<bar>) e)"
    using assms unfolding f32_sub_def f32_addsub_def Let_def e'
    by (simp add: Y_def [symmetric] nX)
  have ab: "\<bar>Y - X\<bar> = \<bar>X - Y\<bar>" by simp
  have z: "(Y - X = 0) = (X - Y = 0)" by auto
  show ?thesis
    unfolding d1 d2 ab z
    using f32_round_mirror [of "X - Y < 0" "nat \<bar>X - Y\<bar>" e "Y - X < 0"]
      f32_round_not_nan [of "X - Y < 0" "nat \<bar>X - Y\<bar>" e]
    by (auto simp: f32_inf_fields f32_zero_exp_frac f32_is_nan_def)
qed

lemma f32_sub_nan:
  "f32_is_nan x \<Longrightarrow> f32_sub x y = f32_quiet x"
  "\<not> f32_is_nan x \<Longrightarrow> f32_is_nan y \<Longrightarrow> f32_sub x y = f32_quiet y"
  unfolding f32_sub_def f32_addsub_def Let_def by simp_all

lemma sqdiff_commute:
  assumes "\<not> (f32_is_nan x \<and> f32_is_nan y)"
  shows "sqdiff x y = sqdiff y x"
proof (cases "f32_is_nan x \<or> f32_is_nan y")
  case True
  then have "f32_sub x y = f32_sub y x"
    using assms f32_sub_nan [of x y] f32_sub_nan [of y x] by metis
  then show ?thesis by (simp add: sqdiff_def)
next
  case False
  then show ?thesis
    using f32_sub_mirror [of x y] f32_mul_self_cong [of "f32_sub x y" "f32_sub y x"]
    by (auto simp: sqdiff_def)
qed

lemma f32_zero_False: "f32_zero False = 0"
  by (simp add: f32_zero_def f32_pack_def)

section \<open>Accumulation of rounding errors\<close>

lemma unit_roundoff_pos: "0 < unit_roundoff" "0 \<le> unit_roundoff"
  by (simp_all add: unit_roundoff_def)

lemma growth_ge_1: "1 \<le> (1 + unit_roundoff) ^ N"
  using unit_roundoff_pos by (simp add: one_le_power)

lemma growth_mono: "N \<le> M \<Longrightarrow> (1 + unit_roundoff) ^ N \<le> (1 + unit_roundoff) ^ M"
  using unit_roundoff_pos by (simp add: power_increasing)

lemma growth_bound:
  assumes "real N * unit_roundoff < 1"
  shows "(1 + unit_roundoff) ^ N \<le> 1 / (1 - real N * unit_roundoff)"
proof -
  let ?u = unit_roundoff
  have b: "1 + real N * (- ?u) \<le> (1 + (- ?u)) ^ N"
    using unit_roundoff_pos by (intro Bernoulli_inequality) (simp add: unit_roundoff_def)
  have u1: "?u < 1" by (simp add: unit_roundoff_def)
  have "(1 + ?u) * (1 - ?u) \<le> 1" by (simp add: algebra_simps)
  then have "((1 + ?u) * (1 - ?u)) ^ N \<le> 1"
    using u1 unit_roundoff_pos by (intro power_le_one) simp_all
  then have p: "(1 + ?u) ^ N * (1 - ?u) ^ N \<le> 1" by (simp add: power_mult_distrib)
  have pos: "0 < 1 - real N * ?u" using assms by simp
  have "(1 + ?u) ^ N * (1 - real N * ?u) \<le> (1 + ?u) ^ N * (1 - ?u) ^ N"
    using b unit_roundoff_pos by (intro mult_left_mono) simp_all
  then have "(1 + ?u) ^ N * (1 - real N * ?u) \<le> 1" using p by linarith
  then show ?thesis using pos by (simp add: pos_le_divide_eq)
qed

lemma growth_le_2:
  assumes "N \<le> 2 ^ 23"
  shows "(1 + unit_roundoff) ^ N \<le> 2"
proof -
  have "real N \<le> 2 ^ 23" using assms by (metis of_nat_le_iff of_nat_numeral of_nat_power)
  then have h: "real N * unit_roundoff \<le> 1 / 2"
    by (simp add: unit_roundoff_def power_int_minus field_simps)
  then have "(1 + unit_roundoff) ^ N \<le> 1 / (1 - real N * unit_roundoff)"
    by (intro growth_bound) simp
  also have "\<dots> \<le> 2" using h by (simp add: field_simps)
  finally show ?thesis .
qed

lemma close_to_refl: "0 \<le> y \<Longrightarrow> close_to N y y"
  using growth_ge_1 [of N] by (simp add: close_to_def)

lemma close_to_mono:
  assumes "N \<le> M" "0 \<le> y" "close_to N x y"
  shows "close_to M x y"
proof -
  have "((1 + unit_roundoff) ^ N - 1) * y \<le> ((1 + unit_roundoff) ^ M - 1) * y"
    using growth_mono [OF assms(1)] assms(2) by (intro mult_right_mono) simp_all
  then show ?thesis using assms(3) unfolding close_to_def by linarith
qed

lemma close_to_upper:
  assumes "0 \<le> y" "close_to N x y"
  shows "\<bar>x\<bar> \<le> (1 + unit_roundoff) ^ N * y"
proof -
  have "\<bar>x\<bar> \<le> \<bar>x - y\<bar> + y" using assms(1) by simp
  also have "\<dots> \<le> ((1 + unit_roundoff) ^ N - 1) * y + y"
    using assms(2) unfolding close_to_def by simp
  finally show ?thesis by (simp add: algebra_simps)
qed

lemma close_to_add_round:
  assumes y: "0 \<le> y1" "0 \<le> y2"
    and c: "close_to N x1 y1" "close_to N x2 y2"
    and r: "\<bar>z - (x1 + x2)\<bar> \<le> unit_roundoff * \<bar>x1 + x2\<bar>"
  shows "close_to (Suc N) z (y1 + y2)"
proof -
  let ?g = "(1 + unit_roundoff) ^ N"
  have e: "\<bar>(x1 + x2) - (y1 + y2)\<bar> \<le> (?g - 1) * (y1 + y2)"
  proof -
    have "\<bar>(x1 + x2) - (y1 + y2)\<bar> \<le> \<bar>x1 - y1\<bar> + \<bar>x2 - y2\<bar>" by simp
    also have "\<dots> \<le> (?g - 1) * y1 + (?g - 1) * y2"
      using c unfolding close_to_def by simp
    finally show ?thesis by (simp add: algebra_simps)
  qed
  have "\<bar>x1 + x2\<bar> \<le> \<bar>x1\<bar> + \<bar>x2\<bar>" by simp
  also have "\<dots> \<le> ?g * y1 + ?g * y2"
    using close_to_upper [OF y(1) c(1)] close_to_upper [OF y(2) c(2)] by simp
  finally have s: "\<bar>x1 + x2\<bar> \<le> ?g * (y1 + y2)" by (simp add: algebra_simps)
  have "unit_roundoff * \<bar>x1 + x2\<bar> \<le> unit_roundoff * (?g * (y1 + y2))"
    using s unit_roundoff_pos by (intro mult_left_mono) simp_all
  then have "\<bar>z - (x1 + x2)\<bar> \<le> unit_roundoff * (?g * (y1 + y2))" using r by linarith
  moreover have "\<bar>z - (y1 + y2)\<bar> \<le> \<bar>z - (x1 + x2)\<bar> + \<bar>(x1 + x2) - (y1 + y2)\<bar>" by simp
  ultimately have "\<bar>z - (y1 + y2)\<bar> \<le> unit_roundoff * (?g * (y1 + y2)) + (?g - 1) * (y1 + y2)"
    using e by linarith
  then show ?thesis by (simp add: close_to_def algebra_simps)
qed

lemma close_to_square_round:
  assumes d: "\<bar>d - D\<bar> \<le> unit_roundoff * \<bar>D\<bar>"
    and q: "\<bar>q - d * d\<bar> \<le> unit_roundoff * \<bar>d * d\<bar>"
  shows "close_to 3 q (D\<^sup>2)"
proof -
  let ?u = unit_roundoff
  have u: "0 \<le> ?u" by (rule unit_roundoff_pos)
  have dD: "\<bar>d\<bar> \<le> (1 + ?u) * \<bar>D\<bar>"
  proof -
    have "\<bar>d\<bar> \<le> \<bar>d - D\<bar> + \<bar>D\<bar>" by simp
    then show ?thesis using d by (simp add: algebra_simps)
  qed
  have dd: "\<bar>d * d\<bar> \<le> (1 + ?u)\<^sup>2 * D\<^sup>2"
  proof -
    have "\<bar>d\<bar> * \<bar>d\<bar> \<le> ((1 + ?u) * \<bar>D\<bar>) * ((1 + ?u) * \<bar>D\<bar>)"
      using dD by (intro mult_mono) (simp_all add: u)
    then show ?thesis by (simp add: abs_mult power2_eq_square algebra_simps)
  qed
  have "\<bar>d * d - D\<^sup>2\<bar> = \<bar>d - D\<bar> * \<bar>d + D\<bar>"
    by (simp add: power2_eq_square flip: abs_mult) (simp add: algebra_simps)
  also have "\<dots> \<le> (?u * \<bar>D\<bar>) * ((2 + ?u) * \<bar>D\<bar>)"
  proof (intro mult_mono d)
    have "\<bar>d + D\<bar> \<le> \<bar>d\<bar> + \<bar>D\<bar>" by simp
    then show "\<bar>d + D\<bar> \<le> (2 + ?u) * \<bar>D\<bar>" using dD by (simp add: algebra_simps)
  qed (simp_all add: u)
  also have "\<dots> = ?u * (2 + ?u) * (\<bar>D\<bar> * \<bar>D\<bar>)" by (simp add: ac_simps)
  also have "\<dots> = ?u * (2 + ?u) * D\<^sup>2" by (simp add: power2_eq_square)
  finally have e2: "\<bar>d * d - D\<^sup>2\<bar> \<le> ?u * (2 + ?u) * D\<^sup>2" .
  have "?u * \<bar>d * d\<bar> \<le> ?u * ((1 + ?u)\<^sup>2 * D\<^sup>2)"
    using dd u by (intro mult_left_mono)
  then have e3: "\<bar>q - d * d\<bar> \<le> ?u * ((1 + ?u)\<^sup>2 * D\<^sup>2)" using q by linarith
  have "\<bar>q - D\<^sup>2\<bar> \<le> \<bar>q - d * d\<bar> + \<bar>d * d - D\<^sup>2\<bar>" by simp
  then have "\<bar>q - D\<^sup>2\<bar> \<le> ?u * ((1 + ?u)\<^sup>2 * D\<^sup>2) + ?u * (2 + ?u) * D\<^sup>2"
    using e2 e3 by linarith
  also have "\<dots> = ((1 + ?u) ^ 3 - 1) * D\<^sup>2"
    by (simp add: power2_eq_square power3_eq_cube algebra_simps)
  finally show ?thesis by (simp add: close_to_def)
qed

section \<open>Evaluating the model on concrete inputs\<close>

lemma floorlog_2_numeral:
  "floorlog 2 (numeral (Num.Bit0 n)) = floorlog 2 (numeral n) + 1"
  "floorlog 2 (numeral (Num.Bit1 n)) = floorlog 2 (numeral n) + 1"
  "floorlog 2 (Suc 0) = 1"
  "floorlog 2 0 = 0"
proof -
  have "numeral (Num.Bit0 n) div 2 = (numeral n :: nat)" by simp
  then show "floorlog 2 (numeral (Num.Bit0 n)) = floorlog 2 (numeral n) + 1"
    by (subst compute_floorlog) simp
  have "numeral (Num.Bit1 n) div 2 = (numeral n :: nat)" by simp
  then show "floorlog 2 (numeral (Num.Bit1 n)) = floorlog 2 (numeral n) + 1"
    by (subst compute_floorlog) simp
  show "floorlog 2 (Suc 0) = 1" by (subst compute_floorlog) (simp add: floorlog_def)
  show "floorlog 2 0 = 0" by (simp add: floorlog_def)
qed

lemmas f32_eval = f32_add_def f32_sub_def f32_addsub_def f32_mul_def
  f32_is_nan_def f32_is_inf_def f32_is_zero_def f32_sign_def f32_exp_def f32_frac_def
  f32_mant_def f32_ex_def f32_pack_def f32_inf_def f32_zero_def f32_default_nan_def
  f32_quiet_def f32_round_def rne_shift_def floorlog_2_numeral
  cvtph_def f16_sign_def f16_exp_def f16_frac_def

lemma hsum_M256:
  "hsum (M256 a0 a1 a2 a3 a4 a5 a6 a7) =
     f32_add (f32_add (f32_add (f32_add a0 a4) (f32_add a1 a5)) (f32_add a2 a6)) (f32_add a3 a7)"
  by (simp add: hsum_def)

lemmas kernel_eval = main_step_def rem_step_def init_state_def hsum_M256 mm256_setzero_ps_def
  mm256_set1_ps_def mm256_cvtph_ps_def half_lane_def union_conv_def Let_def

lemma run_loops_9:
  assumes "18 \<le> length vec1" "18 \<le> length vec2"
  shows "run_loops upper vec1 vec2 9 =
           Some (Inr (rem_step upper vec1 vec2 (main_step vec1 vec2 init_state)))"
proof -
  have "(unat (9 :: 64 word) mod 8 + 1) div 2 = Suc 0" "unat (9 :: 64 word) div 8 = Suc 0"
    by simp_all
  then show ?thesis
    using run_loops_steps [of 9 vec1 vec2 upper] assms by simp
qed

lemma run_loops_10:
  assumes "20 \<le> length vec1" "20 \<le> length vec2"
  shows "run_loops upper vec1 vec2 10 =
           Some (Inr (rem_step upper vec1 vec2 (main_step vec1 vec2 init_state)))"
proof -
  have "(unat (10 :: 64 word) mod 8 + 1) div 2 = Suc 0" "unat (10 :: 64 word) div 8 = Suc 0"
    by simp_all
  then show ?thesis
    using run_loops_steps [of 10 vec1 vec2 upper] assms by simp
qed

lemma iters_one_group_one_single:
  "iters (rem_step upper vec1 vec2 (main_step vec1 vec2 init_state)) =
     [Group 0 0, Single 8 8 9]"
  by (simp add: rem_step_def main_step_def init_state_def Let_def)

lemma f32_mul_0_0: "f32_mul 0 0 = 0"
  by (simp add: f32_eval)

lemma f32_add_0_0: "f32_add 0 0 = 0"
  by (simp add: f32_eval)

lemma sqdiff_self:
  assumes "f32_finite x"
  shows "sqdiff x x = 0"
proof -
  have "f32_sub x x = f32_zero (f32_sign x \<and> (f32_sign x \<noteq> True))"
    unfolding f32_sub_def by (rule f32_addsub_correct(3) [OF assms assms]) simp_all
  then have "f32_sub x x = 0" by (simp add: f32_zero_False)
  then show ?thesis by (simp add: sqdiff_def f32_mul_0_0)
qed

section \<open>The value the kernel returns\<close>

lemma main_steps_snoc:
  "main_steps vec1 vec2 (Suc k) s = main_step vec1 vec2 (main_steps vec1 vec2 k s)"
  by (induction k arbitrary: s) simp_all

lemma half_lane_take_drop:
  assumes "off + 16 \<le> length vec" "j < 8" "off = 2 * i"
  shows "half_lane (take 16 (drop off vec)) j = elem vec (i + j)"
  using assms by (simp add: half_lane_def elem_def algebra_simps)

lemma cvtph_ps_take_drop:
  assumes "2 * i + 16 \<le> length vec"
  shows "mm256_cvtph_ps (take 16 (drop (2 * i) vec)) =
           M256 (cvtph (elem vec i)) (cvtph (elem vec (i + 1))) (cvtph (elem vec (i + 2)))
                (cvtph (elem vec (i + 3))) (cvtph (elem vec (i + 4))) (cvtph (elem vec (i + 5)))
                (cvtph (elem vec (i + 6))) (cvtph (elem vec (i + 7)))"
  using half_lane_take_drop [OF assms _ refl] half_lane_take_drop [OF assms, of 0 i]
  by (simp add: mm256_cvtph_ps_def)

lemma acc_main_step:
  assumes "unat (idx s * 2) = 2 * i" "2 * i + 16 \<le> length vec1" "2 * i + 16 \<le> length vec2"
    and "sum_squared_diff s = M256 a0 a1 a2 a3 a4 a5 a6 a7"
  shows "sum_squared_diff (main_step vec1 vec2 s) =
           M256 (f32_add a0 (term_sq vec1 vec2 i)) (f32_add a1 (term_sq vec1 vec2 (i + 1)))
                (f32_add a2 (term_sq vec1 vec2 (i + 2))) (f32_add a3 (term_sq vec1 vec2 (i + 3)))
                (f32_add a4 (term_sq vec1 vec2 (i + 4))) (f32_add a5 (term_sq vec1 vec2 (i + 5)))
                (f32_add a6 (term_sq vec1 vec2 (i + 6))) (f32_add a7 (term_sq vec1 vec2 (i + 7)))"
  using assms
  by (simp add: main_step_def Let_def cvtph_ps_take_drop term_sq_def sqdiff_def)

lemma unat_idx_times2:
  assumes "16 * k < 2 ^ 64"
  shows "unat ((0 + 8 * of_nat k :: 64 word) * 2) = 2 * (8 * k)"
proof -
  define i :: "64 word" where "i = of_nat (8 * k)"
  have "8 * k < 2 ^ 64" using assms by simp
  then have ui: "unat i = 8 * k" using unat_of_nat [where 'a = 64, of "8 * k"] by (simp add: i_def)
  have "unat (i * 2) = (unat i * 2) mod 2 ^ 64" by (simp add: unat_word_ariths)
  then have "unat (i * 2) = 2 * (8 * k)" using ui assms by simp
  then show ?thesis by (simp add: i_def)
qed

lemma acc_main_steps:
  assumes "16 * K \<le> length vec1" "16 * K \<le> length vec2" "16 * K < 2 ^ 64"
  shows "sum_squared_diff (main_steps vec1 vec2 K init_state) = lanes_acc (term_sq vec1 vec2) K"
  using assms
proof (induction K)
  case 0
  show ?case by (simp add: init_state_def lanes_acc_def mm256_setzero_ps_def)
next
  case (Suc K)
  let ?s = "main_steps vec1 vec2 K init_state"
  have ih: "sum_squared_diff ?s = lanes_acc (term_sq vec1 vec2) K" using Suc by simp
  have "idx ?s = 0 + 8 * of_nat K" by (simp add: idx_main_steps init_state_def)
  then have off: "unat (idx ?s * 2) = 2 * (8 * K)"
    using unat_idx_times2 [of K] Suc.prems(3) by simp
  have b: "2 * (8 * K) + 16 \<le> length vec1" "2 * (8 * K) + 16 \<le> length vec2"
    using Suc.prems by simp_all
  show ?case
    unfolding main_steps_snoc
    using acc_main_step [OF off b ih [unfolded lanes_acc_def]]
    by (simp add: lanes_acc_def)
qed

lemma idx_rem_step [simp]: "idx (rem_step upper vec1 vec2 s) = idx s + 2"
  by (simp add: rem_step_def Let_def)

lemma acc_rem_step:
  "sum_squared_diff (rem_step upper vec1 vec2 s) =
     mm256_add_ps (sum_squared_diff s) (mm256_set1_ps (rem_sq upper vec1 vec2 (idx s)))"
  by (simp add: rem_step_def Let_def rem_sq_def be_pack_def sqdiff_def)

lemma acc_rem_steps:
  "sum_squared_diff (rem_steps upper vec1 vec2 k s) =
     rem_acc upper vec1 vec2 (idx s) k (sum_squared_diff s)"
  by (induction k arbitrary: s) (simp_all add: acc_rem_step)

lemma distance_value:
  assumes "8 \<le> sz" "unat sz < 2 ^ 63"
    and "2 * unat sz \<le> length vec1" "2 * unat sz \<le> length vec2"
  shows "distance_compare_avx2_f16 upper vec1 vec2 sz =
           Some (Inr (hsum (rem_acc upper vec1 vec2 (8 * of_nat (unat sz div 8))
                              ((unat sz mod 8 + 1) div 2)
                              (lanes_acc (term_sq vec1 vec2) (unat sz div 8)))))"
proof -
  let ?K = "unat sz div 8"
  have k: "16 * ?K \<le> 2 * unat sz" by simp
  have "sum_squared_diff (main_steps vec1 vec2 ?K init_state) = lanes_acc (term_sq vec1 vec2) ?K"
    using k assms by (intro acc_main_steps) simp_all
  moreover have "idx (main_steps vec1 vec2 ?K init_state) = 8 * of_nat ?K"
    by (simp add: idx_main_steps init_state_def)
  ultimately show ?thesis
    using run_loops_steps [OF assms, of upper]
    by (simp add: distance_compare_avx2_f16_def acc_rem_steps)
qed

lemma distance_value_multiple_of_8:
  assumes "8 \<le> sz" "unat sz < 2 ^ 63" "unat sz mod 8 = 0"
    and "2 * unat sz \<le> length vec1" "2 * unat sz \<le> length vec2"
  shows "distance_compare_avx2_f16 upper vec1 vec2 sz =
           Some (Inr (hsum (lanes_acc (term_sq vec1 vec2) (unat sz div 8))))"
  using distance_value [OF assms(1,2,4,5), of upper] assms(3) by simp

lemma lane_acc_cong:
  assumes "\<forall>k < K. sq (8 * k + j) = sq' (8 * k + j)"
  shows "lane_acc sq j K = lane_acc sq' j K"
  using assms by (induction K) simp_all

lemma lanes_acc_cong:
  assumes "\<forall>i < 8 * K. sq i = sq' i"
  shows "lanes_acc sq K = lanes_acc sq' K"
proof -
  have "lane_acc sq j K = lane_acc sq' j K" if "j < 8" for j
    using assms that by (intro lane_acc_cong) simp
  then show ?thesis by (simp add: lanes_acc_def)
qed

lemma lane_acc_zero:
  assumes "\<forall>k < K. sq (8 * k + j) = 0"
  shows "lane_acc sq j K = 0"
  using assms by (induction K) (simp_all add: f32_add_0_0)

lemma lanes_acc_zero:
  assumes "\<forall>i < 8 * K. sq i = 0"
  shows "lanes_acc sq K = mm256_setzero_ps"
proof -
  have "lane_acc sq j K = 0" if "j < 8" for j
    using assms that by (intro lane_acc_zero) simp
  then show ?thesis by (simp add: lanes_acc_def mm256_setzero_ps_def)
qed

lemma hsum_zero: "hsum mm256_setzero_ps = 0"
  by (simp add: mm256_setzero_ps_def hsum_M256 f32_add_0_0)

lemma cvtph_0: "cvtph 0 = 0"
  by (simp add: f32_eval)

lemma f32_sub_0_0: "f32_sub 0 0 = 0"
  by (simp add: f32_eval)

lemmas zero_ops = cvtph_0 f32_sub_0_0 f32_mul_0_0 f32_add_0_0

lemmas closed_form_eval = zero_ops lanes_acc_def term_sq_def sqdiff_def elem_def rem_sq_def be_pack_def
  union_conv_def hsum_M256 mm256_set1_ps_def upper_zero_def upper_one_zero_def

lemma distance_8:
  assumes "16 \<le> length vec1" "16 \<le> length vec2"
  shows "distance_compare_avx2_f16 upper vec1 vec2 8 =
           Some (Inr (hsum (lanes_acc (term_sq vec1 vec2) (Suc 0))))"
  using distance_value_multiple_of_8 [of 8 vec1 vec2 upper] assms by simp

lemma distance_9:
  assumes "18 \<le> length vec1" "18 \<le> length vec2"
  shows "distance_compare_avx2_f16 upper vec1 vec2 9 =
           Some (Inr (hsum (mm256_add_ps (lanes_acc (term_sq vec1 vec2) (Suc 0))
                              (mm256_set1_ps (rem_sq upper vec1 vec2 8)))))"
  using distance_value [of 9 vec1 vec2 upper] assms by simp

lemma elem_replicate: "2 * i + 1 < n \<Longrightarrow> elem (replicate n b) i = ucast b OR push_bit 8 (ucast b)"
  by (simp add: elem_def)

lemma eval_inf_vec:
  "distance_compare_avx2_f16 upper_zero
     [0, 0x7C, 0, 0x7C, 0, 0x7C, 0, 0x7C, 0, 0x7C, 0, 0x7C, 0, 0x7C, 0, 0x7C]
     [0, 0x7C, 0, 0x7C, 0, 0x7C, 0, 0x7C, 0, 0x7C, 0, 0x7C, 0, 0x7C, 0, 0x7C] 8
   = Some (Inr 0xFFC00000)"
  by (simp add: distance_8 closed_form_eval) (simp add: f32_eval)

lemma f32_add_0_1: "f32_add 0 0x3F800000 = 0x3F800000"
  by (simp add: f32_eval)

lemma sqdiff_1_0: "sqdiff 0x3F800000 0 = 0x3F800000"
  by (simp add: sqdiff_def f32_eval)

lemma eval_nan_payloads:
  "distance_compare_avx2_f16 upper_zero
     [0x00, 0x7E, 0, 0, 0, 0, 0, 0, 0, 0, 0, 0, 0, 0, 0, 0]
     [0x01, 0x7E, 0, 0, 0, 0, 0, 0, 0, 0, 0, 0, 0, 0, 0, 0] 8 = Some (Inr 0x7FC00000)"
  "distance_compare_avx2_f16 upper_zero
     [0x01, 0x7E, 0, 0, 0, 0, 0, 0, 0, 0, 0, 0, 0, 0, 0, 0]
     [0x00, 0x7E, 0, 0, 0, 0, 0, 0, 0, 0, 0, 0, 0, 0, 0, 0] 8 = Some (Inr 0x7FC02000)"
  by (simp add: distance_8 closed_form_eval, simp add: f32_eval)+

lemma union_conv_low: "take_bit 16 (union_conv hi v) = ucast v"
  by (rule bit_word_eqI) (auto simp: union_conv_def bit_simps dest: bit_imp_le_length)

lemma hsum_exact_val:
  assumes "hsum_exact a"
  shows "f32_val (hsum a) = sum_list (map f32_val (lanes a))"
  using assms by (cases a) (simp add: hsum_M256 exact_add_def)

lemma rem_body_acc:
  assumes "rem_body upper vec1 vec2 s = Inr s'"
  shows "sum_squared_diff s' =
           mm256_add_ps (sum_squared_diff s) (mm256_set1_ps (rem_sq upper vec1 vec2 (idx s)))"
  using assms
  by (auto simp: rem_body_def pack_bytes_def read_byte_def rem_sq_def be_pack_def sqdiff_def
      Let_def split: sum.splits if_splits)

lemma lanes_bcast:
  "lanes (mm256_add_ps a (mm256_set1_ps q)) = map (\<lambda>x. f32_add x q) (lanes a)"
  by (cases a) (simp add: mm256_set1_ps_def)

lemma lane_total_bcast:
  assumes "\<forall>x \<in> set (lanes a). exact_add x q"
  shows "sum_list (map f32_val (lanes (mm256_add_ps a (mm256_set1_ps q)))) =
           sum_list (map f32_val (lanes a)) + 8 * f32_val q"
  using assms by (cases a) (simp add: mm256_set1_ps_def exact_add_def)

lemma f32_val_1: "f32_val 0x3F800000 = 1" by (simp add: f32_val_def f32_mag_def f32_eval)
lemma f32_val_0: "f32_val 0 = 0" by (simp add: f32_val_def f32_mag_def f32_eval)
lemma f32_val_2: "f32_val 0x40000000 = 2" by (simp add: f32_val_def f32_mag_def f32_eval)
lemma f32_val_4: "f32_val 0x40800000 = 4" by (simp add: f32_val_def f32_mag_def f32_eval)
lemma f32_val_6: "f32_val 0x40C00000 = 6" by (simp add: f32_val_def f32_mag_def f32_eval)
lemma f32_val_8: "f32_val 0x41000000 = 8" by (simp add: f32_val_def f32_mag_def f32_eval)


lemma f32_finite_consts:
  "f32_finite 0" "f32_finite 0x3F800000" "f32_finite 0x40000000" "f32_finite 0x40800000"
  "f32_finite 0x40C00000" "f32_finite 0x41000000"
  by (simp_all add: f32_finite_def f32_exp_def)

lemma f32_add_small:
  "f32_add 0x3F800000 0x3F800000 = 0x40000000"
  "f32_add 0x40000000 0x40000000 = 0x40800000"
  "f32_add 0x40800000 0x40000000 = 0x40C00000"
  "f32_add 0x40C00000 0x40000000 = 0x41000000"
  by (simp_all add: f32_eval)

lemmas small_vals = f32_val_0 f32_val_1 f32_val_2 f32_val_4 f32_val_6 f32_val_8

section \<open>Rounding errors of the running sums\<close>

lemma add_close:
  assumes f: "f32_finite a" "f32_finite b"
    and c: "close_to N (f32_val a) ya" "close_to N (f32_val b) yb"
    and y: "0 \<le> ya" "0 \<le> yb" "ya + yb \<le> 2 ^ 100"
    and n: "N \<le> 2 ^ 23"
  shows "f32_finite (f32_add a b)"
    and "close_to (Suc N) (f32_val (f32_add a b)) (ya + yb)"
proof -
  have g: "(1 + unit_roundoff) ^ N \<le> 2" using n by (rule growth_le_2)
  have "\<bar>f32_val a\<bar> \<le> (1 + unit_roundoff) ^ N * ya" using y(1) c(1) by (rule close_to_upper)
  also have "\<dots> \<le> 2 * ya" using g y(1) by (intro mult_right_mono)
  finally have a: "\<bar>f32_val a\<bar> \<le> 2 * ya" .
  have "\<bar>f32_val b\<bar> \<le> (1 + unit_roundoff) ^ N * yb" using y(2) c(2) by (rule close_to_upper)
  also have "\<dots> \<le> 2 * yb" using g y(2) by (intro mult_right_mono)
  finally have b: "\<bar>f32_val b\<bar> \<le> 2 * yb" .
  have "\<bar>f32_val a + f32_val b\<bar> \<le> 2 * (ya + yb)" using a b by argo
  also have "\<dots> \<le> 2 * 2 ^ 100" using y(3) by simp
  also have "\<dots> < (2 :: real) powi 127" by simp
  finally have ovf: "\<bar>f32_val a + (if False then - f32_val b else f32_val b)\<bar> < 2 powi 127"
    by simp
  note r = f32_addsub_correct(1,2) [OF f ovf]
  show "f32_finite (f32_add a b)" using r(1) by (simp add: f32_add_def)
  have "\<bar>f32_val (f32_add a b) - (f32_val a + f32_val b)\<bar>
          \<le> unit_roundoff * \<bar>f32_val a + f32_val b\<bar>"
    using r(2) by (simp add: f32_add_def unit_roundoff_def)
  with y(1,2) c show "close_to (Suc N) (f32_val (f32_add a b)) (ya + yb)"
    by (rule close_to_add_round)
qed

lemma f32_finite_0 [simp]: "f32_finite 0"
  using f32_zero_fields(1) [of False] by (simp add: f32_zero_False)

lemma seq_acc_close:
  assumes g: "\<forall>k<K. f32_finite (g k) \<and> close_to N0 (f32_val (g k)) (y k) \<and> 0 \<le> y k \<and> y k \<le> Y"
    and n: "N0 + K \<le> 2 ^ 23"
    and b: "real K * Y \<le> 2 ^ 100"
  shows "f32_finite (seq_acc g K) \<and> close_to (N0 + K) (f32_val (seq_acc g K)) (\<Sum>k<K. y k)"
  using assms
proof (induction K)
  case 0
  show ?case by (simp add: close_to_refl f32_val_0)
next
  case (Suc K)
  have gK: "f32_finite (g K)" "close_to N0 (f32_val (g K)) (y K)" "0 \<le> y K" "y K \<le> Y"
    using Suc.prems(1) by blast+
  have Y0: "0 \<le> Y" using gK(3,4) by linarith
  have p1: "\<forall>k<K. f32_finite (g k) \<and> close_to N0 (f32_val (g k)) (y k) \<and> 0 \<le> y k \<and> y k \<le> Y"
    using Suc.prems(1) less_Suc_eq by blast
  have p2: "N0 + K \<le> 2 ^ 23" using Suc.prems(2) by linarith
  have "real (Suc K) * Y = real K * Y + Y" by (simp add: algebra_simps)
  then have p3: "real K * Y \<le> 2 ^ 100" using Suc.prems(3) Y0 by linarith
  have ih: "f32_finite (seq_acc g K)" "close_to (N0 + K) (f32_val (seq_acc g K)) (\<Sum>k<K. y k)"
    using Suc.IH [OF p1 p2 p3] by blast+
  have gK': "close_to (N0 + K) (f32_val (g K)) (y K)"
    by (rule close_to_mono [OF _ gK(3) gK(2)]) simp
  have s0: "0 \<le> (\<Sum>k<K. y k)"
    by (rule sum_nonneg) (use p1 in blast)
  have "(\<Sum>k<K. y k) \<le> (\<Sum>k<K. Y)"
    by (rule sum_mono) (use p1 in blast)
  then have sK: "(\<Sum>k<K. y k) \<le> real K * Y" by simp
  have tot: "(\<Sum>k<K. y k) + y K \<le> 2 ^ 100"
    using sK gK(4) \<open>real (Suc K) * Y = real K * Y + Y\<close> Suc.prems(3) by linarith
  note r = add_close [OF ih(1) gK(1) ih(2) gK' s0 gK(3) tot p2]
  have "seq_acc g (Suc K) = f32_add (seq_acc g K) (g K)" by simp
  moreover have "(\<Sum>k<Suc K. y k) = (\<Sum>k<K. y k) + y K" by simp
  moreover have "N0 + Suc K = Suc (N0 + K)" by simp
  ultimately show ?case using r by (simp only:) 
qed

lemma f16_val_grid:
  assumes "f16_finite h"
  shows "\<exists>k :: int. f16_val h = real_of_int k * 2 powi (- 24) \<and> \<bar>k\<bar> < 2 ^ 40"
proof -
  define m where "m = (if f16_exp h = 0 then f16_frac h else 2 ^ 10 + f16_frac h)"
  define e where "e = (if f16_exp h = 0 then - 24 else int (f16_exp h) - 25)"
  define k where "k = (if f16_sign h then - 1 else 1) * (int m * 2 ^ nat (e + 24))"
  have val: "f16_val h = (if f16_sign h then - 1 else 1) * (real m * 2 powi e)"
    by (simp add: f16_val_def m_def e_def)
  have fr: "f16_frac h < 2 ^ 10" by (simp add: f16_frac_def)
  have "f16_exp h < 2 ^ 5" by (simp add: f16_exp_def)
  then have ex: "f16_exp h \<le> 30" using assms by (simp add: f16_finite_def)
  have m11: "m < 2 ^ 11" using fr by (simp add: m_def)
  have e_lo: "- 24 \<le> e" by (simp add: e_def)
  have e_hi: "e \<le> 5" using ex by (simp add: e_def)
  have "(2 :: real) ^ nat (e - (- 24)) * 2 powi (- 24) = 2 powi e"
    using e_lo by (rule powi_nat_diff)
  then have pw: "(2 :: real) ^ nat (e + 24) * 2 powi (- 24) = 2 powi e" by simp
  have "real_of_int k * 2 powi (- 24) =
      (if f16_sign h then - 1 else 1) * (real m * ((2 :: real) ^ nat (e + 24) * 2 powi (- 24)))"
    by (simp add: k_def)
  then have v: "f16_val h = real_of_int k * 2 powi (- 24)" by (simp only: pw val)
  have "nat (e + 24) \<le> 29" using e_hi by simp
  then have "(2 :: int) ^ nat (e + 24) \<le> 2 ^ 29" by (intro power_increasing) simp_all
  moreover have "int m < 2 ^ 11" using m11 by simp
  ultimately have "int m * 2 ^ nat (e + 24) < 2 ^ 11 * 2 ^ 29"
    by (intro mult_less_le_imp_less) simp_all
  then have "\<bar>k\<bar> < 2 ^ 40" by (simp add: k_def abs_mult)
  then show ?thesis using v by blast
qed

lemma f16_diff_range:
  assumes "f16_finite h1" "f16_finite h2"
  defines "D \<equiv> f16_val h1 - f16_val h2"
  shows "D = 0 \<or> 2 powi (- 24) \<le> \<bar>D\<bar>" and "\<bar>D\<bar> < 2 ^ 17"
proof -
  obtain k1 :: int where k1: "f16_val h1 = real_of_int k1 * 2 powi (- 24)" "\<bar>k1\<bar> < 2 ^ 40"
    using f16_val_grid [OF assms(1)] by blast
  obtain k2 :: int where k2: "f16_val h2 = real_of_int k2 * 2 powi (- 24)" "\<bar>k2\<bar> < 2 ^ 40"
    using f16_val_grid [OF assms(2)] by blast
  have D: "D = real_of_int (k1 - k2) * 2 powi (- 24)"
    by (simp add: D_def k1(1) k2(1) algebra_simps)
  have aD: "\<bar>D\<bar> = real_of_int \<bar>k1 - k2\<bar> * 2 powi (- 24)"
    by (simp add: D abs_mult)
  show "D = 0 \<or> 2 powi (- 24) \<le> \<bar>D\<bar>"
  proof (cases "k1 = k2")
    case True
    then show ?thesis by (simp add: D)
  next
    case False
    then have "1 \<le> \<bar>k1 - k2\<bar>" by simp
    then have "1 \<le> real_of_int \<bar>k1 - k2\<bar>" by linarith
    then have "1 * 2 powi (- 24) \<le> real_of_int \<bar>k1 - k2\<bar> * 2 powi (- 24)"
      by (intro mult_right_mono) simp_all
    then show ?thesis by (simp add: aD)
  qed
  have "\<bar>k1 - k2\<bar> < 2 ^ 41" using k1(2) k2(2) by simp
  then have "real_of_int \<bar>k1 - k2\<bar> < real_of_int (2 ^ 41)" by (simp only: of_int_less_iff)
  then have "real_of_int \<bar>k1 - k2\<bar> < 2 ^ 41" by simp
  then have "real_of_int \<bar>k1 - k2\<bar> * 2 powi (- 24) < 2 ^ 41 * 2 powi (- 24)"
    by (intro mult_strict_right_mono) simp_all
  then show "\<bar>D\<bar> < 2 ^ 17" by (simp add: aD power_int_minus)
qed

lemma sqdiff_correct:
  assumes f: "f16_finite h1" "f16_finite h2"
  defines "D \<equiv> f16_val h1 - f16_val h2"
  shows "f32_finite (sqdiff (cvtph h1) (cvtph h2))"
    and "close_to 3 (f32_val (sqdiff (cvtph h1) (cvtph h2))) (D\<^sup>2)"
    and "D\<^sup>2 \<le> 2 ^ 34"
proof -
  let ?u = unit_roundoff
  note rng = f16_diff_range [OF f, folded D_def]
  have fa: "f32_finite (cvtph h1)" and fb: "f32_finite (cvtph h2)"
    using f by (simp_all add: cvtph_correct)
  have X: "f32_val (cvtph h1) + (if True then - f32_val (cvtph h2) else f32_val (cvtph h2)) = D"
    using f by (simp add: cvtph_correct D_def)
  have "\<bar>D\<bar> < 2 powi 127" using rng(2) by simp
  then have ovf: "\<bar>f32_val (cvtph h1)
      + (if True then - f32_val (cvtph h2) else f32_val (cvtph h2))\<bar> < 2 powi 127"
    by (simp only: X)
  define d where "d = f32_sub (cvtph h1) (cvtph h2)"
  have fd: "f32_finite d"
    using f32_addsub_correct(1) [OF fa fb ovf] by (simp add: d_def f32_sub_def)
  have ed: "\<bar>f32_val d - D\<bar> \<le> ?u * \<bar>D\<bar>"
    using f32_addsub_correct(2) [OF fa fb ovf] unfolding X
    by (simp add: d_def f32_sub_def unit_roundoff_def)
  have u: "0 \<le> ?u" "?u \<le> 1 / 2" by (simp_all add: unit_roundoff_def power_int_minus)
  have up: "\<bar>f32_val d\<bar> \<le> 2 ^ 18"
  proof -
    have "?u * \<bar>D\<bar> \<le> 1 * \<bar>D\<bar>" using u by (intro mult_right_mono) simp_all
    then have "\<bar>f32_val d\<bar> \<le> 2 * \<bar>D\<bar>" using ed by argo
    then show ?thesis using rng(2) by simp
  qed
  have lo: "f32_val d * f32_val d = 0 \<or> 2 powi (- 126) \<le> \<bar>f32_val d * f32_val d\<bar>"
  proof (cases "D = 0")
    case True
    then have "f32_val d = 0" using ed by simp
    then show ?thesis by simp
  next
    case False
    then have D24: "2 powi (- 24) \<le> \<bar>D\<bar>" using rng(1) by simp
    have "?u * \<bar>D\<bar> \<le> (1 / 2) * \<bar>D\<bar>" using u by (intro mult_right_mono) simp_all
    then have "\<bar>D\<bar> / 2 \<le> \<bar>f32_val d\<bar>" using ed by argo
    then have d25: "2 powi (- 25) \<le> \<bar>f32_val d\<bar>" using D24 by (simp add: power_int_minus)
    have "2 powi (- 25) * 2 powi (- 25) \<le> \<bar>f32_val d\<bar> * \<bar>f32_val d\<bar>"
      using d25 by (intro mult_mono) simp_all
    then have "2 powi (- 126) \<le> \<bar>f32_val d * f32_val d\<bar>"
      by (simp add: abs_mult power_int_minus)
    then show ?thesis ..
  qed
  have "\<bar>f32_val d\<bar> * \<bar>f32_val d\<bar> \<le> 2 ^ 18 * 2 ^ 18"
    using up by (intro mult_mono) simp_all
  then have hi: "\<bar>f32_val d * f32_val d\<bar> < 2 powi 127" by (simp add: abs_mult)
  note m = f32_mul_correct [OF fd fd lo hi]
  show "f32_finite (sqdiff (cvtph h1) (cvtph h2))"
    using m(1) by (simp add: sqdiff_def d_def)
  have eq: "\<bar>f32_val (f32_mul d d) - f32_val d * f32_val d\<bar> \<le> ?u * \<bar>f32_val d * f32_val d\<bar>"
    using m(2) by (simp add: unit_roundoff_def)
  show "close_to 3 (f32_val (sqdiff (cvtph h1) (cvtph h2))) (D\<^sup>2)"
    using close_to_square_round [OF ed eq] by (simp add: sqdiff_def d_def)
  have "\<bar>D\<bar> * \<bar>D\<bar> \<le> 2 ^ 17 * 2 ^ 17" using rng(2) by (intro mult_mono) simp_all
  then show "D\<^sup>2 \<le> 2 ^ 34" by (simp add: power2_eq_square flip: abs_mult)
qed

lemma hsum_close:
  assumes f: "f32_finite a0" "f32_finite a1" "f32_finite a2" "f32_finite a3"
      "f32_finite a4" "f32_finite a5" "f32_finite a6" "f32_finite a7"
    and c: "close_to N (f32_val a0) y0" "close_to N (f32_val a1) y1"
      "close_to N (f32_val a2) y2" "close_to N (f32_val a3) y3"
      "close_to N (f32_val a4) y4" "close_to N (f32_val a5) y5"
      "close_to N (f32_val a6) y6" "close_to N (f32_val a7) y7"
    and y: "0 \<le> y0" "0 \<le> y1" "0 \<le> y2" "0 \<le> y3" "0 \<le> y4" "0 \<le> y5" "0 \<le> y6" "0 \<le> y7"
    and t: "y0 + y1 + y2 + y3 + y4 + y5 + y6 + y7 \<le> 2 ^ 100"
    and n: "N + 3 \<le> 2 ^ 23"
  shows "f32_finite (hsum (M256 a0 a1 a2 a3 a4 a5 a6 a7))"
    and "close_to (N + 4) (f32_val (hsum (M256 a0 a1 a2 a3 a4 a5 a6 a7)))
           (y0 + y1 + y2 + y3 + y4 + y5 + y6 + y7)"
proof -
  have n0: "N \<le> 2 ^ 23" and n1: "Suc N \<le> 2 ^ 23" and n2: "Suc (Suc N) \<le> 2 ^ 23"
    and n3: "Suc (Suc (Suc N)) \<le> 2 ^ 23"
    using n by simp_all
  have t04: "y0 + y4 \<le> 2 ^ 100" and t15: "y1 + y5 \<le> 2 ^ 100"
    and t26: "y2 + y6 \<le> 2 ^ 100" and t37: "y3 + y7 \<le> 2 ^ 100"
    using y t by linarith+
  note p04 = add_close [OF f(1) f(5) c(1) c(5) y(1) y(5) t04 n0]
  note p15 = add_close [OF f(2) f(6) c(2) c(6) y(2) y(6) t15 n0]
  note p26 = add_close [OF f(3) f(7) c(3) c(7) y(3) y(7) t26 n0]
  note p37 = add_close [OF f(4) f(8) c(4) c(8) y(4) y(8) t37 n0]
  have y04: "0 \<le> y0 + y4" and y15: "0 \<le> y1 + y5" and y26: "0 \<le> y2 + y6"
    and y37: "0 \<le> y3 + y7"
    using y by linarith+
  have tA: "(y0 + y4) + (y1 + y5) \<le> 2 ^ 100" using y t by linarith
  note pA = add_close [OF p04(1) p15(1) p04(2) p15(2) y04 y15 tA n1]
  have yA: "0 \<le> (y0 + y4) + (y1 + y5)" using y by linarith
  have c26: "close_to (Suc (Suc N)) (f32_val (f32_add a2 a6)) (y2 + y6)"
    by (rule close_to_mono [OF _ y26 p26(2)]) simp
  have tB: "((y0 + y4) + (y1 + y5)) + (y2 + y6) \<le> 2 ^ 100" using y t by linarith
  note pB = add_close [OF pA(1) p26(1) pA(2) c26 yA y26 tB n2]
  have yB: "0 \<le> ((y0 + y4) + (y1 + y5)) + (y2 + y6)" using y by linarith
  have c37: "close_to (Suc (Suc (Suc N))) (f32_val (f32_add a3 a7)) (y3 + y7)"
    by (rule close_to_mono [OF _ y37 p37(2)]) simp
  have tC: "(((y0 + y4) + (y1 + y5)) + (y2 + y6)) + (y3 + y7) \<le> 2 ^ 100" using y t by linarith
  note pC = add_close [OF pB(1) p37(1) pB(2) c37 yB y37 tC n3]
  have e: "(((y0 + y4) + (y1 + y5)) + (y2 + y6)) + (y3 + y7)
      = y0 + y1 + y2 + y3 + y4 + y5 + y6 + y7" by simp
  have k: "Suc (Suc (Suc (Suc N))) = N + 4" by simp
  show "f32_finite (hsum (M256 a0 a1 a2 a3 a4 a5 a6 a7))"
    using pC(1) by (simp only: hsum_M256)
  show "close_to (N + 4) (f32_val (hsum (M256 a0 a1 a2 a3 a4 a5 a6 a7)))
           (y0 + y1 + y2 + y3 + y4 + y5 + y6 + y7)"
    using pC(2) by (simp only: hsum_M256 e k)
qed

lemma sum_by_lanes:
  fixes y :: "nat \<Rightarrow> real"
  shows "(\<Sum>i<8 * K. y i) =
     (\<Sum>k<K. y (8 * k)) + (\<Sum>k<K. y (8 * k + 1)) + (\<Sum>k<K. y (8 * k + 2))
     + (\<Sum>k<K. y (8 * k + 3)) + (\<Sum>k<K. y (8 * k + 4)) + (\<Sum>k<K. y (8 * k + 5))
     + (\<Sum>k<K. y (8 * k + 6)) + (\<Sum>k<K. y (8 * k + 7))"
proof (induction K)
  case 0
  show ?case by simp
next
  case (Suc K)
  have "8 * Suc K = Suc (Suc (Suc (Suc (Suc (Suc (Suc (Suc (8 * K))))))))" by simp
  then have "(\<Sum>i<8 * Suc K. y i) = (\<Sum>i<8 * K. y i) + y (8 * K) + y (Suc (8 * K))
      + y (Suc (Suc (8 * K))) + y (Suc (Suc (Suc (8 * K))))
      + y (Suc (Suc (Suc (Suc (8 * K))))) + y (Suc (Suc (Suc (Suc (Suc (8 * K))))))
      + y (Suc (Suc (Suc (Suc (Suc (Suc (8 * K)))))))
      + y (Suc (Suc (Suc (Suc (Suc (Suc (Suc (8 * K))))))))"
    by (simp only: sum.lessThan_Suc)
  moreover have "Suc (8 * K) = 8 * K + 1" "Suc (Suc (8 * K)) = 8 * K + 2"
    "Suc (Suc (Suc (8 * K))) = 8 * K + 3" "Suc (Suc (Suc (Suc (8 * K)))) = 8 * K + 4"
    "Suc (Suc (Suc (Suc (Suc (8 * K))))) = 8 * K + 5"
    "Suc (Suc (Suc (Suc (Suc (Suc (8 * K)))))) = 8 * K + 6"
    "Suc (Suc (Suc (Suc (Suc (Suc (Suc (8 * K))))))) = 8 * K + 7"
    by simp_all
  ultimately show ?case using Suc.IH by (simp only: sum.lessThan_Suc)
qed

lemma lane_acc_seq: "lane_acc sq j K = seq_acc (\<lambda>k. sq (8 * k + j)) K"
  by (induction K) simp_all

lemma brute_force_seq: "brute_force vec1 vec2 n = seq_acc (term_sq vec1 vec2) n"
  by (induction n) (simp_all add: brute_force_def)

section \<open>Error bound of the vectorized accumulation\<close>

lemma kernel_close:
  assumes g: "\<forall>i<8 * K. f32_finite (sq i) \<and> close_to N0 (f32_val (sq i)) (y i) \<and> 0 \<le> y i \<and> y i \<le> Y"
    and n: "N0 + K + 3 \<le> 2 ^ 23"
    and Y: "0 \<le> Y" "real (8 * K) * Y \<le> 2 ^ 100"
  shows "f32_finite (hsum (lanes_acc sq K))"
    and "close_to (N0 + K + 4) (f32_val (hsum (lanes_acc sq K))) (\<Sum>i<8 * K. y i)"
proof -
  have nK: "N0 + K \<le> 2 ^ 23" using n by simp
  have "real K * Y \<le> real (8 * K) * Y" using Y(1) by (intro mult_right_mono) simp_all
  then have bK: "real K * Y \<le> 2 ^ 100" using Y(2) by linarith
  have lane: "f32_finite (lane_acc sq j K)
      \<and> close_to (N0 + K) (f32_val (lane_acc sq j K)) (\<Sum>k<K. y (8 * k + j))
      \<and> 0 \<le> (\<Sum>k<K. y (8 * k + j))" if "j < 8" for j
  proof -
    have h: "\<forall>k<K. f32_finite (sq (8 * k + j)) \<and> close_to N0 (f32_val (sq (8 * k + j))) (y (8 * k + j))
        \<and> 0 \<le> y (8 * k + j) \<and> y (8 * k + j) \<le> Y"
    proof (intro allI impI)
      fix k assume "k < K"
      then have "8 * k + j < 8 * K" using that by simp
      then show "f32_finite (sq (8 * k + j)) \<and> close_to N0 (f32_val (sq (8 * k + j))) (y (8 * k + j))
        \<and> 0 \<le> y (8 * k + j) \<and> y (8 * k + j) \<le> Y"
        using g by blast
    qed
    have "0 \<le> (\<Sum>k<K. y (8 * k + j))" by (rule sum_nonneg) (use h in blast)
    then show ?thesis
      using seq_acc_close [OF h nK bK] by (simp add: lane_acc_seq)
  qed
  have tot: "(\<Sum>i<8 * K. y i) \<le> 2 ^ 100"
  proof -
    have "(\<Sum>i<8 * K. y i) \<le> (\<Sum>i<8 * K. Y)" by (rule sum_mono) (use g in blast)
    also have "\<dots> = real (8 * K) * Y" by simp
    finally show ?thesis using Y(2) by linarith
  qed
  have split: "(\<Sum>i<8 * K. y i) =
      (\<Sum>k<K. y (8 * k + 0)) + (\<Sum>k<K. y (8 * k + 1)) + (\<Sum>k<K. y (8 * k + 2))
      + (\<Sum>k<K. y (8 * k + 3)) + (\<Sum>k<K. y (8 * k + 4)) + (\<Sum>k<K. y (8 * k + 5))
      + (\<Sum>k<K. y (8 * k + 6)) + (\<Sum>k<K. y (8 * k + 7))"
    using sum_by_lanes [of y K] by simp
  note l0 = lane [of 0, simplified] and l1 = lane [of 1, simplified]
    and l2 = lane [of 2, simplified] and l3 = lane [of 3, simplified]
    and l4 = lane [of 4, simplified] and l5 = lane [of 5, simplified]
    and l6 = lane [of 6, simplified] and l7 = lane [of 7, simplified]
  have n3: "N0 + K + 3 \<le> 2 ^ 23" by (rule n)
  note h = hsum_close [of "lane_acc sq 0 K" "lane_acc sq 1 K" "lane_acc sq 2 K" "lane_acc sq 3 K"
      "lane_acc sq 4 K" "lane_acc sq 5 K" "lane_acc sq 6 K" "lane_acc sq 7 K" "N0 + K"
      "\<Sum>k<K. y (8 * k)" "\<Sum>k<K. y (8 * k + 1)" "\<Sum>k<K. y (8 * k + 2)" "\<Sum>k<K. y (8 * k + 3)"
      "\<Sum>k<K. y (8 * k + 4)" "\<Sum>k<K. y (8 * k + 5)" "\<Sum>k<K. y (8 * k + 6)"
      "\<Sum>k<K. y (8 * k + 7)"]
  have t8: "(\<Sum>k<K. y (8 * k)) + (\<Sum>k<K. y (8 * k + 1)) + (\<Sum>k<K. y (8 * k + 2))
      + (\<Sum>k<K. y (8 * k + 3)) + (\<Sum>k<K. y (8 * k + 4)) + (\<Sum>k<K. y (8 * k + 5))
      + (\<Sum>k<K. y (8 * k + 6)) + (\<Sum>k<K. y (8 * k + 7)) \<le> 2 ^ 100"
    using tot split by simp
  show "f32_finite (hsum (lanes_acc sq K))"
    unfolding lanes_acc_def using l0 l1 l2 l3 l4 l5 l6 l7 t8 n3 by (intro h(1)) simp_all
  have "close_to (N0 + K + 4) (f32_val (hsum (lanes_acc sq K)))
      ((\<Sum>k<K. y (8 * k)) + (\<Sum>k<K. y (8 * k + 1)) + (\<Sum>k<K. y (8 * k + 2))
      + (\<Sum>k<K. y (8 * k + 3)) + (\<Sum>k<K. y (8 * k + 4)) + (\<Sum>k<K. y (8 * k + 5))
      + (\<Sum>k<K. y (8 * k + 6)) + (\<Sum>k<K. y (8 * k + 7)))"
    unfolding lanes_acc_def using l0 l1 l2 l3 l4 l5 l6 l7 t8 n3 by (intro h(2)) simp_all
  then show "close_to (N0 + K + 4) (f32_val (hsum (lanes_acc sq K))) (\<Sum>i<8 * K. y i)"
    using split by simp
qed

lemma growth_minus_1_bound:
  assumes "N < 2 ^ 24"
  shows "(1 + unit_roundoff) ^ N - 1 \<le> real N / (2 ^ 24 - real N)"
proof -
  have lt: "real N < 2 ^ 24" using assms by (metis of_nat_less_iff of_nat_numeral of_nat_power)
  then have h: "real N * unit_roundoff < 1"
    by (simp add: unit_roundoff_def power_int_minus field_simps)
  have "(1 + unit_roundoff) ^ N \<le> 1 / (1 - real N * unit_roundoff)"
    using h by (rule growth_bound)
  also have "\<dots> = 2 ^ 24 / (2 ^ 24 - real N)"
    using lt by (simp add: unit_roundoff_def power_int_minus field_simps)
  finally have "(1 + unit_roundoff) ^ N - 1 \<le> 2 ^ 24 / (2 ^ 24 - real N) - 1" by simp
  also have "\<dots> = real N / (2 ^ 24 - real N)" using lt by (simp add: field_simps)
  finally show ?thesis .
qed

lemma term_sq_value_range:
  assumes "f16_finite (elem vec1 i)" "f16_finite (elem vec2 i)"
  shows "0 \<le> f32_val (term_sq vec1 vec2 i)" and "f32_val (term_sq vec1 vec2 i) \<le> 2 ^ 35"
proof -
  define D where "D = f16_val (elem vec1 i) - f16_val (elem vec2 i)"
  define q where "q = f32_val (term_sq vec1 vec2 i)"
  note s = sqdiff_correct [OF assms, folded D_def term_sq_def q_def]
  have D0: "0 \<le> D\<^sup>2" by simp
  have g: "(1 + unit_roundoff) ^ 3 \<le> 2" by (rule growth_le_2) simp
  have "\<bar>q\<bar> \<le> (1 + unit_roundoff) ^ 3 * D\<^sup>2" using D0 s(2) by (rule close_to_upper)
  also have "\<dots> \<le> 2 * D\<^sup>2" using g D0 by (intro mult_right_mono)
  finally show "q \<le> 2 ^ 35" using s(3) by simp
  have "((1 + unit_roundoff) ^ 3 - 1) * D\<^sup>2 \<le> 1 * D\<^sup>2"
    using g D0 by (intro mult_right_mono) simp_all
  then have "\<bar>q - D\<^sup>2\<bar> \<le> D\<^sup>2" using s(2) unfolding close_to_def by linarith
  then show "0 \<le> q" by argo
qed


section \<open>Evaluating the sums on longer inputs\<close>

lemma sum_lessThan_8:
  fixes f :: "nat \<Rightarrow> real"
  shows "(\<Sum>i<8. f i) = f 0 + f 1 + f 2 + f 3 + f 4 + f 5 + f 6 + f 7"
proof -
  have "(8 :: nat) = Suc (Suc (Suc (Suc (Suc (Suc (Suc (Suc 0)))))))" by simp
  then show ?thesis by (simp add: numeral_eq_Suc)
qed

lemma f32_add_count:
  "f32_add 0x3F800000 0x3F800000 = 0x40000000"
  "f32_add 0x40000000 0x3F800000 = 0x40400000"
  "f32_add 0x40400000 0x3F800000 = 0x40800000"
  "f32_add 0x40800000 0x3F800000 = 0x40A00000"
  "f32_add 0x40A00000 0x3F800000 = 0x40C00000"
  "f32_add 0x40C00000 0x3F800000 = 0x40E00000"
  "f32_add 0x40E00000 0x3F800000 = 0x41000000"
  "f32_add 0x41000000 0x3F800000 = 0x41100000"
  "f32_add 0x41100000 0x3F800000 = 0x41200000"
  "f32_add 0x41200000 0x3F800000 = 0x41300000"
  "f32_add 0x41300000 0x3F800000 = 0x41400000"
  "f32_add 0x41400000 0x3F800000 = 0x41500000"
  "f32_add 0x41500000 0x3F800000 = 0x41600000"
  "f32_add 0x41600000 0x3F800000 = 0x41700000"
  "f32_add 0x41700000 0x3F800000 = 0x41800000"
  "f32_add 0x41800000 0x3F800000 = 0x41880000"
  "f32_add 0x41880000 0x3F800000 = 0x41900000"
  "f32_add 0x41900000 0x3F800000 = 0x41980000"
  "f32_add 0x41980000 0x3F800000 = 0x41A00000"
  "f32_add 0x41A00000 0x3F800000 = 0x41A80000"
  "f32_add 0x41A80000 0x3F800000 = 0x41B00000"
  "f32_add 0x41B00000 0x3F800000 = 0x41B80000"
  "f32_add 0x41B80000 0x3F800000 = 0x41C00000"
  by (simp_all add: f32_eval)

lemma seq_acc_ones_24: "seq_acc (\<lambda>k. 0x3F800000) 24 = 0x41C00000"
proof -
  have n: "(24 :: nat) = Suc (Suc (Suc (Suc (Suc (Suc (Suc (Suc (Suc (Suc (Suc (Suc (Suc (Suc (Suc
      (Suc (Suc (Suc (Suc (Suc (Suc (Suc (Suc (Suc 0)))))))))))))))))))))))"
    by simp
  show ?thesis unfolding n by (simp add: f32_add_0_1 f32_add_count)
qed

lemma f32_add_absorb:
  "f32_add 0 0x4B800000 = 0x4B800000"
  "f32_add 0x4B800000 0x3F800000 = 0x4B800000"
  by (simp_all add: f32_eval)

lemma seq_acc_absorb:
  "seq_acc (\<lambda>k. if k = 0 then 0x4B800000 else 0x3F800000) (Suc k) = 0x4B800000"
  by (induction k) (simp_all add: f32_add_absorb)

lemma length_concat_pairs: "length (concat (replicate n [a, b])) = 2 * n"
  by (induction n) simp_all

lemma nth_concat_pairs:
  assumes "i < n"
  shows "concat (replicate n [a, b]) ! (2 * i) = a"
    and "concat (replicate n [a, b]) ! (2 * i + 1) = b"
proof -
  have "concat (replicate n [a, b]) ! (2 * i) = a \<and> concat (replicate n [a, b]) ! (2 * i + 1) = b"
    using assms
  proof (induction n arbitrary: i)
    case 0
    then show ?case by simp
  next
    case (Suc n)
    show ?case
    proof (cases i)
      case 0
      then show ?thesis by simp
    next
      case (Suc m)
      then have m: "m < n" using Suc.prems by simp
      have e: "2 * i = Suc (Suc (2 * m))" "2 * i + 1 = Suc (Suc (2 * m + 1))"
        using Suc by simp_all
      show ?thesis unfolding e using Suc.IH [OF m] by simp
    qed
  qed
  then show "concat (replicate n [a, b]) ! (2 * i) = a"
    and "concat (replicate n [a, b]) ! (2 * i + 1) = b" by simp_all
qed

lemma elem_big_then_ones:
  assumes "i < 192"
  shows "elem (0x00 # 0x6C # concat (replicate 191 [0x00, 0x3C])) i =
           (if i = 0 then 0x6C00 else 0x3C00)"
proof (cases i)
  case 0
  then show ?thesis by (simp add: elem_def)
next
  case (Suc m)
  then have m: "m < 191" using assms by simp
  have "2 * i = Suc (Suc (2 * m))" "2 * i + 1 = Suc (Suc (2 * m + 1))" using Suc by simp_all
  then show ?thesis
    using nth_concat_pairs [OF m, of "0x00 :: 8 word" "0x3C"] Suc
    by (simp add: elem_def)
qed

lemma term_sq_big_then_ones:
  assumes "i < 192"
  shows "term_sq (0x00 # 0x6C # concat (replicate 191 [0x00, 0x3C])) (replicate 384 0) i =
           (if i = 0 then 0x4B800000 else 0x3F800000)"
proof -
  have e: "elem (replicate 384 (0 :: 8 word)) i = 0"
    using assms by (simp add: elem_replicate)
  have a: "sqdiff (cvtph 0x6C00) (cvtph 0) = 0x4B800000" by (simp add: sqdiff_def f32_eval)
  have b: "sqdiff (cvtph 0x3C00) (cvtph 0) = 0x3F800000" by (simp add: sqdiff_def f32_eval)
  show ?thesis
    unfolding term_sq_def elem_big_then_ones [OF assms] e using a b by simp
qed

lemma lanes_big_then_ones:
  "lanes_acc (\<lambda>i. if i = 0 then 0x4B800000 else 0x3F800000) 24 =
     M256 0x4B800000 0x41C00000 0x41C00000 0x41C00000 0x41C00000 0x41C00000 0x41C00000 0x41C00000"
proof -
  have n: "(24 :: nat) = Suc 23" by simp
  have "seq_acc (\<lambda>k. if k = 0 then 0x4B800000 else 0x3F800000) 24 = 0x4B800000"
    unfolding n by (rule seq_acc_absorb)
  then show ?thesis
    by (simp add: lanes_acc_def lane_acc_seq seq_acc_ones_24)
qed

lemma hsum_big_then_ones:
  "hsum (M256 0x4B800000 0x41C00000 0x41C00000 0x41C00000 0x41C00000 0x41C00000 0x41C00000
      0x41C00000) = 0x4B800054"
proof -
  have a: "f32_add 0x4B800000 0x41C00000 = 0x4B80000C" by (simp add: f32_eval)
  have b: "f32_add 0x41C00000 0x41C00000 = 0x42400000" by (simp add: f32_eval)
  have c: "f32_add 0x4B80000C 0x42400000 = 0x4B800024" by (simp add: f32_eval)
  have d: "f32_add 0x4B800024 0x42400000 = 0x4B80003C" by (simp add: f32_eval)
  have e: "f32_add 0x4B80003C 0x42400000 = 0x4B800054" by (simp add: f32_eval)
  show ?thesis by (simp add: hsum_M256 a b c d e)
qed

lemma distance_big_then_ones:
  "distance_compare_avx2_f16 upper (0x00 # 0x6C # concat (replicate 191 [0x00, 0x3C]))
     (replicate 384 0) 192 = Some (Inr 0x4B800054)"
proof -
  have l: "lanes_acc (term_sq (0x00 # 0x6C # concat (replicate 191 [0x00, 0x3C]))
      (replicate 384 0)) 24 = lanes_acc (\<lambda>i. if i = 0 then 0x4B800000 else 0x3F800000) 24"
    by (rule lanes_acc_cong) (simp add: term_sq_big_then_ones)
  show ?thesis
    using distance_value_multiple_of_8 [of 192
        "0x00 # 0x6C # concat (replicate 191 [0x00, 0x3C])" "replicate 384 0" upper]
    by (simp add: l lanes_big_then_ones hsum_big_then_ones length_concat_pairs)
qed

lemma seq_acc_cong:
  assumes "\<forall>k < K. g k = g' k"
  shows "seq_acc g K = seq_acc g' K"
  using assms by (induction K) simp_all

lemma brute_force_big_then_ones:
  "brute_force (0x00 # 0x6C # concat (replicate 191 [0x00, 0x3C])) (replicate 384 0) 192
     = 0x4B800000"
proof -
  have n: "(192 :: nat) = Suc 191" by simp
  have "seq_acc (term_sq (0x00 # 0x6C # concat (replicate 191 [0x00, 0x3C]))
      (replicate 384 0)) 192 = seq_acc (\<lambda>i. if i = 0 then 0x4B800000 else 0x3F800000) 192"
    by (rule seq_acc_cong) (simp add: term_sq_big_then_ones)
  also have "\<dots> = 0x4B800000" unfolding n by (rule seq_acc_absorb)
  finally show ?thesis by (simp add: brute_force_seq)
qed

lemma f32_val_big:
  "f32_val 0x4B800054 = 16777384" "f32_val 0x4B800000 = 16777216"
  by (simp_all add: f32_val_def f32_mag_def f32_eval)


section \<open>The vectorized loop (C5)\<close>

text \<open>
  C5.  For every size of at least 8, on buffers of at least \<open>2 * size\<close> bytes, the
  vectorized loop ends without leaving a buffer after exactly \<open>size div 8\<close> iterations,
  with \<open>i = 8 * (size div 8)\<close>: the state it leaves is that of \<open>size div 8\<close> successive
  steps, each of which takes the 16 bytes at byte offset \<open>i * 2\<close> of either buffer, adds
  the squares of the differences of the 8 widened elements to the accumulator and adds 8
  to \<open>i\<close>.  The \<open>k\<close>-th iteration is entered with \<open>i = 8 * k\<close> and
  loads 16 bytes of each buffer at byte offset \<open>i * 2\<close> (computed in \<open>size_t\<close>), and these
  16 bytes lie within the first \<open>2 * size\<close> bytes.  When \<open>2 * size\<close> fits \<open>size_t\<close> the
  offset is \<open>16 * k\<close>, so that the 16 bytes are the 8 consecutive half-precision elements
  \<open>8 * k, \<dots>, 8 * k + 7\<close> of each buffer, and the accumulator the loop leaves is made of
  these elements: its lane \<open>j\<close> is the binary32 sum, over the iterations \<open>k\<close>, of the
  squared difference of the widened elements \<open>8 * k + j\<close> of the two buffers.
\<close>

theorem main_loop_iterations:
  assumes "8 \<le> sz" and "2 * unat sz \<le> length vec1" and "2 * unat sz \<le> length vec2"
  shows "\<exists>s'. main_loop vec1 vec2 sz init_state = Some (Inr s')
           \<and> s' = main_steps vec1 vec2 (unat sz div 8) init_state
           \<and> idx s' = of_nat (8 * (unat sz div 8))
           \<and> iters s' = map (\<lambda>k. Group (of_nat (8 * k)) (unat (of_nat (8 * k) * 2 :: 64 word)))
                            [0..<unat sz div 8]
           \<and> (\<forall>k < unat sz div 8. unat (of_nat (8 * k) * 2 :: 64 word) + 16 \<le> 2 * unat sz)
           \<and> (unat sz < 2 ^ 63 \<longrightarrow>
                (\<forall>k < unat sz div 8. unat (of_nat (8 * k) * 2 :: 64 word) = 2 * (8 * k))
                \<and> sum_squared_diff s' = lanes_acc (term_sq vec1 vec2) (unat sz div 8))"
proof -
  let ?K = "unat sz div 8"
  let ?s = "main_steps vec1 vec2 ?K init_state"
  have run: "main_loop vec1 vec2 sz init_state = Some (Inr ?s)"
    using main_loop_steps [OF assms(1) _ _ assms(2,3), of init_state]
    by (simp add: init_state_def)
  have ix: "idx ?s = of_nat (8 * ?K)"
    by (simp add: idx_main_steps init_state_def)
  have tr: "iters ?s = map (\<lambda>k. Group (of_nat (8 * k)) (unat (of_nat (8 * k) * 2 :: 64 word)))
                         [0..<?K]"
    by (simp add: iters_main_steps init_state_def)
  have lt: "unat sz < 2 ^ 64" using unsigned_less [of sz] by simp
  have un: "unat (of_nat (8 * k) :: 64 word) = 8 * k" if "k < ?K" for k
  proof -
    have "8 * k < 2 ^ 64" using that lt by simp
    then show ?thesis using unat_of_nat [where 'a = 64, of "8 * k"] by simp
  qed
  have off: "unat (of_nat (8 * k) * 2 :: 64 word) + 16 \<le> 2 * unat sz" if "k < ?K" for k
  proof (rule unat_times2_aligned)
    show "8 dvd unat (of_nat (8 * k) :: 64 word)" using un [OF that] by simp
    show "unat (of_nat (8 * k) :: 64 word) + 8 \<le> unat sz" using un [OF that] that by simp
  qed
  have ex: "unat (of_nat (8 * k) * 2 :: 64 word) = 2 * (8 * k)"
    if "k < ?K" "unat sz < 2 ^ 63" for k
  proof -
    define i :: "64 word" where "i = of_nat (8 * k)"
    have ui: "unat i = 8 * k" using un [OF that(1)] by (simp add: i_def)
    have "unat (i * 2) = (unat i * 2) mod 2 ^ 64"
      by (simp add: unat_word_ariths)
    moreover have "8 * k * 2 < 2 ^ 64" using that by simp
    ultimately have "unat (i * 2) = 2 * (8 * k)" using ui by simp
    then show ?thesis by (simp only: i_def)
  qed
  have acc: "sum_squared_diff ?s = lanes_acc (term_sq vec1 vec2) ?K" if "unat sz < 2 ^ 63"
  proof (rule acc_main_steps)
    have k: "16 * ?K \<le> 2 * unat sz" by simp
    show "16 * ?K \<le> length vec1" using k assms(2) by (rule order_trans)
    show "16 * ?K \<le> length vec2" using k assms(3) by (rule order_trans)
    show "16 * ?K < 2 ^ 64" using k that by simp
  qed
  show ?thesis using run ix tr off ex acc by blast
qed

theorem main_loop_iterations_witness:
  "(8 :: 64 word) \<le> 8 \<and> 2 * unat (8 :: 64 word) \<le> length (replicate 16 (0x3C :: 8 word))
   \<and> (\<exists>s'. main_loop (replicate 16 0x3C) (replicate 16 0) 8 init_state = Some (Inr s')
          \<and> idx s' = 8 \<and> iters s' = [Group 0 0]
          \<and> sum_squared_diff s' =
              M256 0x3F8F7080 0x3F8F7080 0x3F8F7080 0x3F8F7080
                   0x3F8F7080 0x3F8F7080 0x3F8F7080 0x3F8F7080)"
proof -
  have h1: "(8 :: 64 word) \<le> 8" by simp
  have h2: "2 * unat (8 :: 64 word) \<le> length (replicate 16 (0x3C :: 8 word))" by simp
  have h3: "2 * unat (8 :: 64 word) \<le> length (replicate 16 (0 :: 8 word))" by simp
  have q: "sqdiff (cvtph 0x3C3C) (cvtph 0) = 0x3F8F7080" by (simp add: sqdiff_def f32_eval)
  have a: "f32_add 0 0x3F8F7080 = 0x3F8F7080" by (simp add: f32_eval)
  have t: "term_sq (replicate 16 0x3C) (replicate 16 0) j = 0x3F8F7080" if "j < 8" for j
    using that by (simp add: term_sq_def elem_replicate q)
  have l: "lanes_acc (term_sq (replicate 16 0x3C) (replicate 16 0)) (Suc 0) =
      M256 0x3F8F7080 0x3F8F7080 0x3F8F7080 0x3F8F7080
           0x3F8F7080 0x3F8F7080 0x3F8F7080 0x3F8F7080"
    by (simp add: lanes_acc_def t a)
  from main_loop_iterations [OF h1 h2 h3] obtain s' where
    "main_loop (replicate 16 0x3C) (replicate 16 0) 8 init_state = Some (Inr s')"
    "idx s' = of_nat (8 * (unat (8 :: 64 word) div 8))"
    "iters s' = map (\<lambda>k. Group (of_nat (8 * k)) (unat (of_nat (8 * k) * 2 :: 64 word)))
                  [0..<unat (8 :: 64 word) div 8]"
    "unat (8 :: 64 word) < 2 ^ 63 \<longrightarrow>
       sum_squared_diff s' = lanes_acc (term_sq (replicate 16 0x3C) (replicate 16 0))
         (unat (8 :: 64 word) div 8)"
    by blast
  then show ?thesis using h1 h2 by (simp add: l)
qed

section \<open>Size 0 (C4)\<close>

lemma run_loops_small:
  assumes "sz < 8"
  shows "run_loops upper vec1 vec2 sz \<noteq> Some (Inr s')"
proof
  assume r: "run_loops upper vec1 vec2 sz = Some (Inr s')"
  show False
  proof (cases "main_loop vec1 vec2 sz init_state")
    case None
    then show False using r by (simp add: run_loops_def)
  next
    case (Some y)
    have "8 dvd unat (idx init_state)" by (simp add: init_state_def)
    from main_loop_small [OF Some assms this] obtain e where "y = Inl e" ..
    then show False using r Some by (simp add: run_loops_def)
  qed
qed

text \<open>
  C4 claims the result 0 for size 0.  The bound \<open>size - 8\<close> of the vectorized loop wraps
  around for every size below 8, \<open>i\<close> runs through the multiples of 8 and never exceeds
  it: the kernel returns no value at all, whatever the buffers; it reads past a buffer
  or loops forever.
\<close>

theorem distance_no_result_below_8:
  assumes "sz < 8"
  shows "distance_compare_avx2_f16 upper vec1 vec2 sz \<noteq> Some (Inr r)"
  using run_loops_small [OF assms, of upper vec1 vec2]
  by (auto simp: distance_compare_avx2_f16_def split: option.splits sum.splits)

theorem distance_no_result_below_8_witness:
  "(0 :: 64 word) < 8 \<and> distance_compare_avx2_f16 (\<lambda>i. (0, 0)) [] [] 0 \<noteq> Some (Inr 0)
   \<and> distance_compare_avx2_f16 (\<lambda>i. (0, 0)) [] [] 0 = Some (Inl OutOfBounds)"
proof -
  have h: "(0 :: 64 word) < 8" by simp
  have "distance_compare_avx2_f16 (\<lambda>i. (0, 0)) [] [] 0 = Some (Inl OutOfBounds)"
    by code_simp
  then show ?thesis using h distance_no_result_below_8 [OF h, of "\<lambda>i. (0, 0)" "[]" "[]" 0] by simp
qed

section \<open>Coverage of the indices (C2)\<close>

text \<open>
  C2 claims that both phases together visit every index below the size exactly once.
  At size 10 the remainder loop runs once, at index 8, and its two increments step over
  index 9.
\<close>

theorem size_10_skips_index_9:
  assumes "20 \<le> length vec1" "20 \<le> length vec2"
  shows "\<exists>s'. run_loops upper vec1 vec2 10 = Some (Inr s')
           \<and> iters s' = [Group 0 0, Single 8 8 9]
           \<and> concat (map visited (iters s')) = [0, 1, 2, 3, 4, 5, 6, 7, 8]
           \<and> 9 \<notin> set (concat (map visited (iters s')))"
proof -
  have "[0..<8] = [0, 1, 2, 3, 4, 5, 6, 7 :: nat]" by (simp add: upt_rec)
  then show ?thesis
    using run_loops_10 [OF assms, of upper] by (simp add: iters_one_group_one_single)
qed

theorem size_10_skips_index_9_witness:
  "20 \<le> length (replicate 20 (0 :: 8 word))
   \<and> (\<exists>s'. run_loops (\<lambda>i. (0, 0)) (replicate 20 0) (replicate 20 0) 10 = Some (Inr s')
          \<and> 9 \<notin> set (concat (map visited (iters s'))))"
proof -
  have h: "20 \<le> length (replicate 20 (0 :: 8 word))" by simp
  from size_10_skips_index_9 [OF h h, of "\<lambda>i. (0, 0)"] show ?thesis using h by blast
qed

section \<open>The bytes the remainder loop reads (C10)\<close>

lemma acc_9_update:
  assumes "18 \<le> length vec1" "18 \<le> length vec2"
  shows "sum_squared_diff (rem_step upper (vec1[16 := a, 17 := b]) (vec2[16 := c, 17 := d])
             (main_step (vec1[16 := a, 17 := b]) (vec2[16 := c, 17 := d]) init_state)) =
         sum_squared_diff (rem_step upper vec1 vec2 (main_step vec1 vec2 init_state))"
  by (simp add: rem_step_def main_step_def init_state_def Let_def)

text \<open>
  C10.  At size 9 the remainder iteration is entered with \<open>i = 8\<close> and reads the bytes
  at offsets 8 and 9 of each buffer, not those at 16 and 17 where the ninth element is
  stored: the kernel returns a value, and it returns the same value whatever is written
  at offsets 16 and 17 of either buffer.
\<close>

theorem ninth_element_bytes_ignored:
  assumes "18 \<le> length vec1" "18 \<le> length vec2"
  shows "\<exists>s' r. run_loops upper vec1 vec2 9 = Some (Inr s')
           \<and> iters s' = [Group 0 0, Single 8 8 9]
           \<and> distance_compare_avx2_f16 upper vec1 vec2 9 = Some (Inr r)
           \<and> (\<forall>a b c d. distance_compare_avx2_f16 upper
                  (vec1[16 := a, 17 := b]) (vec2[16 := c, 17 := d]) 9 = Some (Inr r))"
proof -
  have "distance_compare_avx2_f16 upper (vec1[16 := a, 17 := b]) (vec2[16 := c, 17 := d]) 9 =
        distance_compare_avx2_f16 upper vec1 vec2 9" for a b c d
    using assms run_loops_9 [of vec1 vec2 upper]
      run_loops_9 [of "vec1[16 := a, 17 := b]" "vec2[16 := c, 17 := d]" upper]
      acc_9_update [OF assms, of upper a b c d]
    by (simp add: distance_compare_avx2_f16_def)
  then show ?thesis
    using run_loops_9 [OF assms, of upper]
    by (simp add: distance_compare_avx2_f16_def iters_one_group_one_single)
qed

theorem ninth_element_bytes_ignored_witness:
  "18 \<le> length (replicate 18 (0 :: 8 word))
   \<and> distance_compare_avx2_f16 (\<lambda>i. (0, 0)) (replicate 18 0) (replicate 18 0) 9 = Some (Inr 0)
   \<and> distance_compare_avx2_f16 (\<lambda>i. (0, 0))
        ((replicate 18 0)[16 := 0xFF, 17 := 0x7B]) (replicate 18 0) 9 = Some (Inr 0)"
proof -
  have h: "18 \<le> length (replicate 18 (0 :: 8 word))" by simp
  have e: "distance_compare_avx2_f16 (\<lambda>i. (0, 0)) (replicate 18 0) (replicate 18 0) 9
             = Some (Inr 0)"
    by (simp add: distance_compare_avx2_f16_def run_loops_9 kernel_eval) (simp add: f32_eval)
  from ninth_element_bytes_ignored [OF h h, of "\<lambda>i. (0, 0)"] obtain r where
    r: "distance_compare_avx2_f16 (\<lambda>i. (0, 0)) (replicate 18 0) (replicate 18 0) 9 = Some (Inr r)"
       "\<forall>a b c d. distance_compare_avx2_f16 (\<lambda>i. (0, 0))
           ((replicate 18 0)[16 := a, 17 := b]) ((replicate 18 0)[16 := c, 17 := d]) 9
           = Some (Inr r)"
    by blast
  have "r = 0" using r(1) e by simp
  moreover have "(replicate 18 (0 :: 8 word))[16 := 0, 17 := 0] = replicate 18 0"
    by (simp add: list_eq_iff_nth_eq nth_list_update)
  ultimately show ?thesis using h e r(2) [rule_format, of "0xFF" "0x7B" 0 0] by simp
qed


section \<open>Distance of a vector to itself (C8)\<close>

text \<open>
  C8 claims that the distance of every vector to itself is 0.  It is not when an
  element is infinite: eight elements \<open>+\<infinity>\<close> (pattern \<open>0x7C00\<close>) against themselves give
  \<open>\<infinity> - \<infinity>\<close> in every lane, and the kernel returns a NaN.
\<close>

theorem distance_self_zero_counterexample:
  "distance_compare_avx2_f16 upper_zero
        [0, 0x7C, 0, 0x7C, 0, 0x7C, 0, 0x7C, 0, 0x7C, 0, 0x7C, 0, 0x7C, 0, 0x7C]
        [0, 0x7C, 0, 0x7C, 0, 0x7C, 0, 0x7C, 0, 0x7C, 0, 0x7C, 0, 0x7C, 0, 0x7C] 8
      = Some (Inr 0xFFC00000)
   \<and> f32_is_nan 0xFFC00000"
proof -
  have "f32_is_nan 0xFFC00000" by (simp add: f32_eval)
  then show ?thesis using eval_inf_vec by simp
qed

text \<open>
  C8 as amended.  For a size of at least 8 that is a multiple of 8 (and below \<open>2^63\<close>) and
  a buffer of at least \<open>2 * size\<close> bytes all of whose \<open>size\<close> elements are finite, the
  distance of the vector to itself is \<open>+0\<close>.
\<close>

theorem distance_self_zero:
  assumes "8 \<le> sz" "unat sz < 2 ^ 63" "unat sz mod 8 = 0" "2 * unat sz \<le> length vec"
    and fin: "\<forall>i < unat sz. f16_finite (elem vec i)"
  shows "distance_compare_avx2_f16 upper vec vec sz = Some (Inr 0)"
proof -
  let ?K = "unat sz div 8"
  have n: "8 * ?K = unat sz" using assms(3) by presburger
  have "term_sq vec vec i = 0" if "i < 8 * ?K" for i
    using fin that n by (simp add: term_sq_def sqdiff_self cvtph_correct(1))
  then have l: "lanes_acc (term_sq vec vec) ?K = mm256_setzero_ps"
    by (intro lanes_acc_zero) simp
  show ?thesis
    using distance_value_multiple_of_8 [OF assms(1,2,3,4,4), of upper] l
    by (simp add: hsum_zero)
qed

theorem distance_self_zero_witness:
  "distance_compare_avx2_f16 upper_one_zero (replicate 16 0x3C) (replicate 16 0x3C) 8
     = Some (Inr 0)"
proof (rule distance_self_zero)
  show "(8 :: 64 word) \<le> 8" by simp
  show "unat (8 :: 64 word) < 2 ^ 63" by simp
  show "unat (8 :: 64 word) mod 8 = 0" by simp
  show "2 * unat (8 :: 64 word) \<le> length (replicate 16 (0x3C :: 8 word))" by simp
  show "\<forall>i < unat (8 :: 64 word). f16_finite (elem (replicate 16 0x3C) i)"
    by (simp add: elem_replicate f16_finite_def f16_exp_def)
qed


section \<open>Symmetry (C7)\<close>

text \<open>
  C7 claims that exchanging the two vectors never changes the result.  It does when both
  vectors hold a NaN at the same index: the subtraction returns the NaN of its first
  operand, so the two calls return NaNs with the payloads of different vectors.
\<close>

theorem distance_symmetric_counterexample:
  "distance_compare_avx2_f16 upper_zero
     [0x00, 0x7E, 0, 0, 0, 0, 0, 0, 0, 0, 0, 0, 0, 0, 0, 0]
     [0x01, 0x7E, 0, 0, 0, 0, 0, 0, 0, 0, 0, 0, 0, 0, 0, 0] 8 = Some (Inr 0x7FC00000)
   \<and> distance_compare_avx2_f16 upper_zero
     [0x01, 0x7E, 0, 0, 0, 0, 0, 0, 0, 0, 0, 0, 0, 0, 0, 0]
     [0x00, 0x7E, 0, 0, 0, 0, 0, 0, 0, 0, 0, 0, 0, 0, 0, 0] 8 = Some (Inr 0x7FC02000)"
  by (simp only: eval_nan_payloads)

text \<open>
  C7 as amended.  For a size of at least 8 that is a multiple of 8 (and below \<open>2^63\<close>) and
  buffers of at least \<open>2 * size\<close> bytes, when at no index below \<open>size\<close> both elements
  are NaNs, the two calls, with the vectors in either order, return the same binary32
  pattern.
\<close>

theorem distance_symmetric:
  assumes "8 \<le> sz" "unat sz < 2 ^ 63" "unat sz mod 8 = 0"
    and "2 * unat sz \<le> length vec1" "2 * unat sz \<le> length vec2"
    and nan: "\<forall>i < unat sz.
                \<not> (f32_is_nan (cvtph (elem vec1 i)) \<and> f32_is_nan (cvtph (elem vec2 i)))"
  shows "\<exists>r. distance_compare_avx2_f16 upper vec1 vec2 sz = Some (Inr r)
           \<and> distance_compare_avx2_f16 upper' vec2 vec1 sz = Some (Inr r)"
proof -
  let ?K = "unat sz div 8"
  have n: "8 * ?K = unat sz" using assms(3) by presburger
  have "term_sq vec1 vec2 i = term_sq vec2 vec1 i" if "i < 8 * ?K" for i
  proof -
    have "i < unat sz" using that n by simp
    then show ?thesis
      using nan unfolding term_sq_def by (intro sqdiff_commute) blast
  qed
  then have l: "lanes_acc (term_sq vec1 vec2) ?K = lanes_acc (term_sq vec2 vec1) ?K"
    by (intro lanes_acc_cong) simp
  show ?thesis
    using distance_value_multiple_of_8 [OF assms(1,2,3,4,5), of upper]
      distance_value_multiple_of_8 [OF assms(1,2,3,5,4), of upper'] l
    by simp
qed

theorem distance_symmetric_witness:
  "\<exists>r. distance_compare_avx2_f16 upper_zero (replicate 16 0x3C) (replicate 16 1) 8 = Some (Inr r)
       \<and> distance_compare_avx2_f16 upper_one_zero (replicate 16 1) (replicate 16 0x3C) 8
           = Some (Inr r)"
proof (rule distance_symmetric)
  show "(8 :: 64 word) \<le> 8" by simp
  show "unat (8 :: 64 word) < 2 ^ 63" by simp
  show "unat (8 :: 64 word) mod 8 = 0" by simp
  show "2 * unat (8 :: 64 word) \<le> length (replicate 16 (0x3C :: 8 word))" by simp
  show "2 * unat (8 :: 64 word) \<le> length (replicate 16 (1 :: 8 word))" by simp
  have "f16_finite (0x3C3C :: 16 word)" by (simp add: f16_finite_def f16_exp_def)
  then have "\<not> f32_is_nan (cvtph 0x3C3C)"
    using cvtph_correct(1) f32_finite_not_special(1) by blast
  then show "\<forall>i < unat (8 :: 64 word).
          \<not> (f32_is_nan (cvtph (elem (replicate 16 0x3C) i))
             \<and> f32_is_nan (cvtph (elem (replicate 16 1) i)))"
    by (simp add: elem_replicate)
qed


section \<open>The decoding in the remainder loop (C6)\<close>

text \<open>
  C6 claims that the remainder loop decodes the packed 16 bits as a binary16 value and
  widens it.  The union does no conversion: the 16 bits become the low half of a binary32
  pattern.  The packed pattern \<open>0x3C00\<close> is the binary16 value 1, which the widening
  conversion of the vectorized loop turns into \<open>0x3F800000\<close>; whatever the upper bytes
  of the union, the remainder loop reads another pattern, with zero upper bytes the
  subnormal \<open>0x00003C00\<close>.  On the buffers below, which differ in byte 8 only, the
  remainder iteration of size 9 packs \<open>0x3C00\<close> against \<open>0\<close> and adds nothing: sizes 8
  and 9 give the same result.
\<close>

theorem remainder_union_is_not_binary16_decode:
  "be_pack [0, 0, 0, 0, 0, 0, 0, 0, 0x3C, 0, 0, 0, 0, 0, 0, 0, 0, 0] 8 = 0x3C00
   \<and> cvtph 0x3C00 = 0x3F800000
   \<and> union_conv hi 0x3C00 \<noteq> cvtph 0x3C00
   \<and> union_conv 0 0x3C00 = 0x00003C00
   \<and> distance_compare_avx2_f16 upper_zero
        [0, 0, 0, 0, 0, 0, 0, 0, 0x3C, 0, 0, 0, 0, 0, 0, 0, 0, 0]
        [0, 0, 0, 0, 0, 0, 0, 0, 0, 0, 0, 0, 0, 0, 0, 0, 0, 0] 9 = Some (Inr 0x2D610000)
   \<and> distance_compare_avx2_f16 upper_zero
        [0, 0, 0, 0, 0, 0, 0, 0, 0x3C, 0, 0, 0, 0, 0, 0, 0, 0, 0]
        [0, 0, 0, 0, 0, 0, 0, 0, 0, 0, 0, 0, 0, 0, 0, 0, 0, 0] 8 = Some (Inr 0x2D610000)"
proof -
  have a: "be_pack [0, 0, 0, 0, 0, 0, 0, 0, 0x3C, 0, 0, 0, 0, 0, 0, 0, 0, 0] 8 = 0x3C00"
    by (simp add: be_pack_def)
  have b: "cvtph 0x3C00 = 0x3F800000" by (simp add: f32_eval)
  have c: "union_conv hi 0x3C00 \<noteq> cvtph 0x3C00"
  proof
    assume "union_conv hi 0x3C00 = cvtph 0x3C00"
    then have "take_bit 16 (union_conv hi 0x3C00) = take_bit 16 (0x3F800000 :: 32 word)"
      by (simp add: b)
    then show False by (simp add: union_conv_low)
  qed
  have d: "union_conv 0 0x3C00 = 0x00003C00" by (simp add: union_conv_def)
  have e: "distance_compare_avx2_f16 upper_zero
        [0, 0, 0, 0, 0, 0, 0, 0, 0x3C, 0, 0, 0, 0, 0, 0, 0, 0, 0]
        [0, 0, 0, 0, 0, 0, 0, 0, 0, 0, 0, 0, 0, 0, 0, 0, 0, 0] 9 = Some (Inr 0x2D610000)"
    by (simp add: distance_9 closed_form_eval) (simp add: f32_eval)
  have f: "distance_compare_avx2_f16 upper_zero
        [0, 0, 0, 0, 0, 0, 0, 0, 0x3C, 0, 0, 0, 0, 0, 0, 0, 0, 0]
        [0, 0, 0, 0, 0, 0, 0, 0, 0, 0, 0, 0, 0, 0, 0, 0, 0, 0] 8 = Some (Inr 0x2D610000)"
    by (simp add: distance_8 closed_form_eval) (simp add: f32_eval)
  show ?thesis using a b c d e f by blast
qed


section \<open>The weight of a remainder element (C9)\<close>

text \<open>
  C9 claims that each squared difference of the remainder loop contributes 8 times its
  value to the returned value.  The additions that broadcast and reduce it are binary32
  additions, and they round.  Below, element 0 is 4096 against 0, so that lane 0 holds
  \<open>2^24\<close> after the vectorized loop, and the remainder iteration of size 9 forms the
  squared difference 1 (its unions hold \<open>0x3F80\<close> and \<open>0\<close> above the zero bytes they
  read).  Adding 1 to \<open>2^24\<close> in lane 0 is rounded away: size 9 returns \<open>2^24 + 6\<close> where
  size 8 returns \<open>2^24\<close>, not \<open>2^24 + 8\<close>.
\<close>

theorem remainder_square_counts_eight_times_counterexample:
  "rem_sq upper_one_zero
        [0, 0x6C, 0, 0, 0, 0, 0, 0, 0, 0, 0, 0, 0, 0, 0, 0, 0, 0]
        [0, 0, 0, 0, 0, 0, 0, 0, 0, 0, 0, 0, 0, 0, 0, 0, 0, 0] 8 = 0x3F800000
   \<and> distance_compare_avx2_f16 upper_one_zero
        [0, 0x6C, 0, 0, 0, 0, 0, 0, 0, 0, 0, 0, 0, 0, 0, 0, 0, 0]
        [0, 0, 0, 0, 0, 0, 0, 0, 0, 0, 0, 0, 0, 0, 0, 0, 0, 0] 8 = Some (Inr 0x4B800000)
   \<and> distance_compare_avx2_f16 upper_one_zero
        [0, 0x6C, 0, 0, 0, 0, 0, 0, 0, 0, 0, 0, 0, 0, 0, 0, 0, 0]
        [0, 0, 0, 0, 0, 0, 0, 0, 0, 0, 0, 0, 0, 0, 0, 0, 0, 0] 9 = Some (Inr 0x4B800003)
   \<and> f32_val 0x3F800000 = 1 \<and> f32_val 0x4B800000 = 16777216 \<and> f32_val 0x4B800003 = 16777222
   \<and> f32_val 0x4B800003 \<noteq> f32_val 0x4B800000 + 8 * f32_val 0x3F800000"
proof -
  have a: "rem_sq upper_one_zero
        [0, 0x6C, 0, 0, 0, 0, 0, 0, 0, 0, 0, 0, 0, 0, 0, 0, 0, 0]
        [0, 0, 0, 0, 0, 0, 0, 0, 0, 0, 0, 0, 0, 0, 0, 0, 0, 0] 8 = 0x3F800000"
    by (simp add: rem_sq_def be_pack_def union_conv_def upper_one_zero_def sqdiff_1_0)
  have b: "distance_compare_avx2_f16 upper_one_zero
        [0, 0x6C, 0, 0, 0, 0, 0, 0, 0, 0, 0, 0, 0, 0, 0, 0, 0, 0]
        [0, 0, 0, 0, 0, 0, 0, 0, 0, 0, 0, 0, 0, 0, 0, 0, 0, 0] 8 = Some (Inr 0x4B800000)"
    by (simp add: distance_8 closed_form_eval) (simp add: f32_eval)
  have c: "distance_compare_avx2_f16 upper_one_zero
        [0, 0x6C, 0, 0, 0, 0, 0, 0, 0, 0, 0, 0, 0, 0, 0, 0, 0, 0]
        [0, 0, 0, 0, 0, 0, 0, 0, 0, 0, 0, 0, 0, 0, 0, 0, 0, 0] 9 = Some (Inr 0x4B800003)"
    by (simp add: distance_9 closed_form_eval) (simp add: f32_eval)
  have v: "f32_val 0x4B800000 = 16777216" "f32_val 0x4B800003 = 16777222"
    by (simp_all add: f32_val_def f32_mag_def f32_eval)
  show ?thesis using a b c v by (simp add: f32_val_1)
qed

text \<open>
  C9 as amended.  An iteration of the remainder loop adds its squared difference, in
  binary32, to each of the 8 lanes of the accumulator.  When these 8 additions and the
  additions of the horizontal reduction of the accumulator before and after the iteration
  are exact (finite operands and result, no rounding error), the iteration raises the
  reduced sum, which is what the kernel returns, by 8 times the squared difference.
\<close>

theorem remainder_square_counts_eight_times:
  assumes "rem_body upper vec1 vec2 s = Inr s'"
  shows "lanes (sum_squared_diff s') =
           map (\<lambda>a. f32_add a (rem_sq upper vec1 vec2 (idx s))) (lanes (sum_squared_diff s))
         \<and> ((\<forall>a \<in> set (lanes (sum_squared_diff s)). exact_add a (rem_sq upper vec1 vec2 (idx s)))
              \<and> hsum_exact (sum_squared_diff s) \<and> hsum_exact (sum_squared_diff s')
            \<longrightarrow> f32_val (hsum (sum_squared_diff s')) =
                  f32_val (hsum (sum_squared_diff s))
                  + 8 * f32_val (rem_sq upper vec1 vec2 (idx s)))"
  using rem_body_acc [OF assms] lanes_bcast lane_total_bcast hsum_exact_val
  by simp

theorem remainder_square_counts_eight_times_witness:
  "rem_body upper_one_zero (replicate 18 0) (replicate 18 0)
       \<lparr>idx = 8, sum_squared_diff = mm256_setzero_ps, iters = []\<rparr>
     = Inr \<lparr>idx = 9,
            sum_squared_diff = M256 0x3F800000 0x3F800000 0x3F800000 0x3F800000
                                    0x3F800000 0x3F800000 0x3F800000 0x3F800000,
            iters = [Single 8 8 9]\<rparr>
   \<and> f32_val (hsum (M256 0x3F800000 0x3F800000 0x3F800000 0x3F800000
                          0x3F800000 0x3F800000 0x3F800000 0x3F800000)) =
       f32_val (hsum mm256_setzero_ps) + 8 * f32_val 0x3F800000"
proof -
  let ?s = "\<lparr>idx = 8, sum_squared_diff = mm256_setzero_ps, iters = []\<rparr>"
  let ?s' = "\<lparr>idx = 9,
            sum_squared_diff = M256 0x3F800000 0x3F800000 0x3F800000 0x3F800000
                                    0x3F800000 0x3F800000 0x3F800000 0x3F800000,
            iters = [Single 8 8 9]\<rparr>"
  have d: "f32_sub 0x3F800000 0 = 0x3F800000" by (simp add: f32_eval)
  have m: "f32_mul 0x3F800000 0x3F800000 = 0x3F800000" by (simp add: f32_eval)
  have rb: "rem_body upper_one_zero (replicate 18 0) (replicate 18 0) ?s = Inr ?s'"
    by (simp add: rem_body_def pack_bytes_def read_byte_def union_conv_def upper_one_zero_def
        Let_def d m mm256_setzero_ps_def mm256_set1_ps_def f32_add_0_1)
  have q: "rem_sq upper_one_zero (replicate 18 0) (replicate 18 0) 8 = 0x3F800000"
    by (simp add: rem_sq_def be_pack_def union_conv_def upper_one_zero_def sqdiff_1_0)
  have e0: "exact_add 0 0x3F800000"
    by (simp add: exact_add_def f32_add_0_1 f32_finite_consts small_vals)
  have h0: "hsum_exact mm256_setzero_ps"
    by (simp add: mm256_setzero_ps_def exact_add_def f32_add_0_0 f32_finite_consts small_vals)
  have h1: "hsum_exact (M256 0x3F800000 0x3F800000 0x3F800000 0x3F800000
                              0x3F800000 0x3F800000 0x3F800000 0x3F800000)"
    by (simp add: exact_add_def f32_add_small f32_finite_consts small_vals)
  show ?thesis
    using rb remainder_square_counts_eight_times [OF rb] e0 h0 h1
    by (simp add: q mm256_setzero_ps_def)
qed


section \<open>The returned value and the exact sum (C1)\<close>

text \<open>
  C1 claims that the returned value equals the mathematical sum of the squared differences
  of the decoded elements.  The kernel computes in binary32 and rounds: with element 0
  equal to 1 against \<open>2^-24\<close> (the least subnormal binary16 value) and all other elements
  0, the sum is \<open>(1 - 2^-24)^2\<close>, and the kernel returns \<open>1 - 2^-23\<close>.
\<close>

theorem distance_close_to_exact_sum_counterexample:
  "distance_compare_avx2_f16 upper_zero
     [0x00, 0x3C, 0, 0, 0, 0, 0, 0, 0, 0, 0, 0, 0, 0, 0, 0]
     [0x01, 0x00, 0, 0, 0, 0, 0, 0, 0, 0, 0, 0, 0, 0, 0, 0] 8 = Some (Inr 0x3F7FFFFE)
   \<and> f32_val 0x3F7FFFFE = 8388607 / 8388608
   \<and> exact_sum
     [0x00, 0x3C, 0, 0, 0, 0, 0, 0, 0, 0, 0, 0, 0, 0, 0, 0]
     [0x01, 0x00, 0, 0, 0, 0, 0, 0, 0, 0, 0, 0, 0, 0, 0, 0] 8 = (16777215 / 16777216)\<^sup>2
   \<and> f32_val 0x3F7FFFFE \<noteq> exact_sum
     [0x00, 0x3C, 0, 0, 0, 0, 0, 0, 0, 0, 0, 0, 0, 0, 0, 0]
     [0x01, 0x00, 0, 0, 0, 0, 0, 0, 0, 0, 0, 0, 0, 0, 0, 0] 8"
proof -
  have d: "distance_compare_avx2_f16 upper_zero
     [0x00, 0x3C, 0, 0, 0, 0, 0, 0, 0, 0, 0, 0, 0, 0, 0, 0]
     [0x01, 0x00, 0, 0, 0, 0, 0, 0, 0, 0, 0, 0, 0, 0, 0, 0] 8 = Some (Inr 0x3F7FFFFE)"
    by (simp add: distance_8 closed_form_eval) (simp add: f32_eval)
  have v: "f32_val 0x3F7FFFFE = 8388607 / 8388608"
    by (simp add: f32_val_def f32_mag_def f32_eval power_int_minus)
  have e: "exact_sum
     [0x00, 0x3C, 0, 0, 0, 0, 0, 0, 0, 0, 0, 0, 0, 0, 0, 0]
     [0x01, 0x00, 0, 0, 0, 0, 0, 0, 0, 0, 0, 0, 0, 0, 0, 0] 8 = (16777215 / 16777216)\<^sup>2"
    by (simp add: exact_sum_def sum_lessThan_8 elem_def f16_val_def f16_sign_def f16_exp_def
        f16_frac_def power_int_minus)
  have n: "(8388607 / 8388608 :: real) \<noteq> (16777215 / 16777216)\<^sup>2"
    by (simp add: power2_eq_square)
  show ?thesis using d v e n by simp
qed

text \<open>
  C1 as amended.  For a size \<open>n\<close> of at least 8 and at most \<open>2^24\<close> that is a multiple
  of 8, buffers of at least \<open>2 * n\<close> bytes and finite binary16 elements, the call returns a
  finite binary32 value \<open>r\<close> whose distance from the mathematical sum \<open>S\<close> of the squared
  differences of the decoded elements is at most \<open>((1 + 2^-24) ^ (n div 8 + 7) - 1) * S\<close>.
\<close>

theorem distance_close_to_exact_sum:
  assumes sz: "8 \<le> sz" "unat sz \<le> 2 ^ 24" "unat sz mod 8 = 0"
    and len: "2 * unat sz \<le> length vec1" "2 * unat sz \<le> length vec2"
    and fin: "\<forall>i < unat sz. f16_finite (elem vec1 i) \<and> f16_finite (elem vec2 i)"
  shows "\<exists>r. distance_compare_avx2_f16 upper vec1 vec2 sz = Some (Inr r) \<and> f32_finite r
           \<and> \<bar>f32_val r - exact_sum vec1 vec2 (unat sz)\<bar>
               \<le> ((1 + 2 powi (- 24)) ^ (unat sz div 8 + 7) - 1) * exact_sum vec1 vec2 (unat sz)"
proof -
  define K where "K = unat sz div 8"
  define y where "y i = (f16_val (elem vec1 i) - f16_val (elem vec2 i))\<^sup>2" for i
  have n8: "unat sz = 8 * K" using sz(3) unfolding K_def by presburger
  have K21: "K \<le> 2 ^ 21" using sz(2) n8 by simp
  have lt: "unat sz < 2 ^ 63" using sz(2) by simp
  have d: "distance_compare_avx2_f16 upper vec1 vec2 sz =
      Some (Inr (hsum (lanes_acc (term_sq vec1 vec2) K)))"
    using distance_value_multiple_of_8 [OF sz(1) lt sz(3) len] by (simp add: K_def)
  have g: "\<forall>i<8 * K. f32_finite (term_sq vec1 vec2 i)
      \<and> close_to 3 (f32_val (term_sq vec1 vec2 i)) (y i) \<and> 0 \<le> y i \<and> y i \<le> 2 ^ 34"
  proof (intro allI impI)
    fix i assume "i < 8 * K"
    then have f: "f16_finite (elem vec1 i)" "f16_finite (elem vec2 i)"
      using fin n8 by simp_all
    show "f32_finite (term_sq vec1 vec2 i)
      \<and> close_to 3 (f32_val (term_sq vec1 vec2 i)) (y i) \<and> 0 \<le> y i \<and> y i \<le> 2 ^ 34"
      using sqdiff_correct [OF f] by (simp add: term_sq_def y_def)
  qed
  have n: "3 + K + 3 \<le> 2 ^ 23" using K21 by simp
  have "real (8 * K) \<le> 2 ^ 24" using sz(2) n8 by (metis of_nat_le_iff of_nat_numeral of_nat_power)
  then have "real (8 * K) * 2 ^ 34 \<le> 2 ^ 24 * 2 ^ 34" by (intro mult_right_mono) simp_all
  then have Y: "real (8 * K) * 2 ^ 34 \<le> 2 ^ 100" by simp
  note k = kernel_close [OF g n _ Y]
  have e: "exact_sum vec1 vec2 (unat sz) = (\<Sum>i<8 * K. y i)"
    by (simp add: exact_sum_def y_def n8)
  have "3 + K + 4 = unat sz div 8 + 7" by (simp add: K_def)
  then have "close_to (unat sz div 8 + 7) (f32_val (hsum (lanes_acc (term_sq vec1 vec2) K)))
      (exact_sum vec1 vec2 (unat sz))"
    using k(2) e by (simp add: add.commute)
  then show ?thesis
    using d k(1) by (simp add: close_to_def unit_roundoff_def)
qed

theorem distance_close_to_exact_sum_witness:
  "\<exists>r. distance_compare_avx2_f16 upper_zero (replicate 16 0x3C) (replicate 16 0) 8 = Some (Inr r)
       \<and> f32_finite r
       \<and> \<bar>f32_val r - exact_sum (replicate 16 0x3C) (replicate 16 0) 8\<bar>
           \<le> ((1 + 2 powi (- 24)) ^ 8 - 1) * exact_sum (replicate 16 0x3C) (replicate 16 0) 8"
proof -
  have fin: "\<forall>i < unat (8 :: 64 word).
      f16_finite (elem (replicate 16 0x3C) i) \<and> f16_finite (elem (replicate 16 0) i)"
    by (simp add: elem_replicate f16_finite_def f16_exp_def)
  show ?thesis
    using distance_close_to_exact_sum [of 8 "replicate 16 0x3C" "replicate 16 0" upper_zero,
        OF _ _ _ _ _ fin]
    by simp
qed


section \<open>The returned value and sequential binary32 summation (C3)\<close>

text \<open>
  C3 claims that for every size divisible by 8 the returned value is within relative error
  \<open>10^-5\<close> of the brute-force binary32 sum of the squared differences.  The kernel adds in
  8 lanes and the brute-force loop in index order, and their roundings differ.  Below,
  size is 192, element 0 is 4096 and the other 191 elements are 1, against zeros.  The
  brute-force sum reaches \<open>2^24\<close> at index 0 and every further addition of 1 is rounded
  away; in the kernel only lane 0 loses its 23 ones: it returns \<open>2^24 + 168\<close>, and
  \<open>168 / 2^24\<close> exceeds \<open>10^-5\<close>.
\<close>

theorem distance_close_to_brute_force_counterexample:
  "distance_compare_avx2_f16 upper_zero (0x00 # 0x6C # concat (replicate 191 [0x00, 0x3C]))
     (replicate 384 0) 192 = Some (Inr 0x4B800054)
   \<and> brute_force (0x00 # 0x6C # concat (replicate 191 [0x00, 0x3C])) (replicate 384 0) 192
       = 0x4B800000
   \<and> f32_val 0x4B800054 = 16777384 \<and> f32_val 0x4B800000 = 16777216
   \<and> \<not> \<bar>f32_val 0x4B800054 - f32_val 0x4B800000\<bar> \<le> 1 / 100000 * \<bar>f32_val 0x4B800000\<bar>"
  by (simp add: distance_big_then_ones brute_force_big_then_ones f32_val_big)

text \<open>
  C3 as amended.  For a size \<open>n\<close> of at least 8 and at most 144 that is a multiple of 8,
  buffers of at least \<open>2 * n\<close> bytes and finite binary16 elements, the call returns a finite
  binary32 value that lies within relative error \<open>10^-5\<close> of the finite value obtained by
  adding up the binary32 squared differences one after the other in index order.
\<close>

theorem distance_close_to_brute_force:
  assumes sz: "8 \<le> sz" "unat sz \<le> 144" "unat sz mod 8 = 0"
    and len: "2 * unat sz \<le> length vec1" "2 * unat sz \<le> length vec2"
    and fin: "\<forall>i < unat sz. f16_finite (elem vec1 i) \<and> f16_finite (elem vec2 i)"
  shows "\<exists>r. distance_compare_avx2_f16 upper vec1 vec2 sz = Some (Inr r) \<and> f32_finite r
           \<and> f32_finite (brute_force vec1 vec2 (unat sz))
           \<and> \<bar>f32_val r - f32_val (brute_force vec1 vec2 (unat sz))\<bar>
               \<le> 1 / 100000 * \<bar>f32_val (brute_force vec1 vec2 (unat sz))\<bar>"
proof -
  define K where "K = unat sz div 8"
  define y where "y i = f32_val (term_sq vec1 vec2 i)" for i
  define T where "T = (\<Sum>i<8 * K. y i)"
  define r where "r = f32_val (hsum (lanes_acc (term_sq vec1 vec2) K))"
  define b where "b = f32_val (brute_force vec1 vec2 (unat sz))"
  have n8: "unat sz = 8 * K" using sz(3) unfolding K_def by presburger
  have K18: "K \<le> 18" using sz(2) n8 by simp
  have lt: "unat sz < 2 ^ 63" using sz(2) by simp
  have d: "distance_compare_avx2_f16 upper vec1 vec2 sz =
      Some (Inr (hsum (lanes_acc (term_sq vec1 vec2) K)))"
    using distance_value_multiple_of_8 [OF sz(1) lt sz(3) len] by (simp add: K_def)
  have g: "\<forall>i<8 * K. f32_finite (term_sq vec1 vec2 i)
      \<and> close_to 0 (f32_val (term_sq vec1 vec2 i)) (y i) \<and> 0 \<le> y i \<and> y i \<le> 2 ^ 35"
  proof (intro allI impI)
    fix i assume "i < 8 * K"
    then have f: "f16_finite (elem vec1 i)" "f16_finite (elem vec2 i)"
      using fin n8 by simp_all
    show "f32_finite (term_sq vec1 vec2 i)
      \<and> close_to 0 (f32_val (term_sq vec1 vec2 i)) (y i) \<and> 0 \<le> y i \<and> y i \<le> 2 ^ 35"
      using sqdiff_correct(1) [OF f] term_sq_value_range [OF f]
      by (simp add: term_sq_def y_def close_to_refl)
  qed
  have T0: "0 \<le> T" unfolding T_def by (rule sum_nonneg) (use g in blast)
  have "real (8 * K) \<le> 144" using sz(2) n8 by simp
  then have "real (8 * K) * 2 ^ 35 \<le> 144 * 2 ^ 35" by (intro mult_right_mono) simp_all
  then have Y: "real (8 * K) * 2 ^ 35 \<le> 2 ^ 100" by simp
  have n: "0 + K + 3 \<le> 2 ^ 23" using K18 by simp
  have Y0: "(0::real) \<le> 2 ^ 35" by simp
  note k = kernel_close [OF g n Y0 Y, folded T_def r_def]
  have n': "0 + 8 * K \<le> 2 ^ 23" using K18 by simp
  note bf = seq_acc_close [OF g n' Y, folded T_def]
  have fr: "f32_finite (hsum (lanes_acc (term_sq vec1 vec2) K))" using k(1) by simp
  have fb: "f32_finite (brute_force vec1 vec2 (unat sz))"
    using bf by (simp add: brute_force_seq n8)
  have cr: "close_to 22 r T"
    by (rule close_to_mono [OF _ T0 k(2)]) (use K18 in simp)
  have cb0: "close_to (0 + 8 * K) b T" using bf by (simp add: b_def brute_force_seq n8)
  have cb: "close_to 144 b T"
    by (rule close_to_mono [OF _ T0 cb0]) (use K18 in simp)
  have A: "(1 + unit_roundoff) ^ 22 - 1 \<le> 22 / (2 ^ 24 - 22)"
    using growth_minus_1_bound [of 22] by simp
  have C: "(1 + unit_roundoff) ^ 144 - 1 \<le> 144 / (2 ^ 24 - 144)"
    using growth_minus_1_bound [of 144] by simp
  have "((1 + unit_roundoff) ^ 22 - 1) * T \<le> 22 / (2 ^ 24 - 22) * T"
    using A T0 by (rule mult_right_mono)
  then have er: "\<bar>r - T\<bar> \<le> 22 / (2 ^ 24 - 22) * T" using cr unfolding close_to_def by linarith
  have "((1 + unit_roundoff) ^ 144 - 1) * T \<le> 144 / (2 ^ 24 - 144) * T"
    using C T0 by (rule mult_right_mono)
  then have eb: "\<bar>b - T\<bar> \<le> 144 / (2 ^ 24 - 144) * T" using cb unfolding close_to_def by linarith
  have er': "\<bar>r - T\<bar> \<le> 22 / 16777194 * T" using er by simp
  have eb': "\<bar>b - T\<bar> \<le> 144 / 16777072 * T" using eb by simp
  have "\<bar>r - b\<bar> \<le> 1 / 100000 * \<bar>b\<bar>"
    using er' eb' T0 by argo
  then show ?thesis using d fr fb by (simp add: r_def b_def)
qed

theorem distance_close_to_brute_force_witness:
  "\<exists>r. distance_compare_avx2_f16 upper_zero (replicate 16 0x3C) (replicate 16 0) 8 = Some (Inr r)
       \<and> f32_finite r
       \<and> f32_finite (brute_force (replicate 16 0x3C) (replicate 16 0) 8)
       \<and> \<bar>f32_val r - f32_val (brute_force (replicate 16 0x3C) (replicate 16 0) 8)\<bar>
           \<le> 1 / 100000 * \<bar>f32_val (brute_force (replicate 16 0x3C) (replicate 16 0) 8)\<bar>"
proof -
  have fin: "\<forall>i < unat (8 :: 64 word).
      f16_finite (elem (replicate 16 0x3C) i) \<and> f16_finite (elem (replicate 16 0) i)"
    by (simp add: elem_replicate f16_finite_def f16_exp_def)
  show ?thesis
    using distance_close_to_brute_force [of 8 "replicate 16 0x3C" "replicate 16 0" upper_zero,
        OF _ _ _ _ _ fin]
    by simp
qed


end
